theory Spec2Isabelle
  imports Main "HOL-Library.Sublist"
begin

section \<open>Python values\<close>

text \<open>
  The spawner (\<^verbatim>\<open>src/utils/spawner.py\<close>) works on dynamically typed Python values.
  Only the shapes the module can tell apart are kept: \<^verbatim>\<open>None\<close>, integers, strings,
  lists, tuples, dictionaries, function objects (identified by a number; calling one is an
  interaction with the outside world) and opaque objects such as entity handles.
  A dictionary is the list of its items in iteration order.
\<close>

datatype error = TypeError | ValueError | KeyError | IndexError | AttributeError | Raised nat

datatype pyval =
    PNone
  | PInt int
  | PStr string
  | PList "pyval list"
  | PTuple "pyval list"
  | PDict "(pyval \<times> pyval) list"
  | PCallable nat
  | PObj nat

type_synonym pydict = "(pyval \<times> pyval) list"

text \<open>\<^verbatim>\<open>d[k] = v\<close>: an existing key keeps its place, a new key goes last.\<close>

fun dict_setitem :: "'k \<Rightarrow> 'v \<Rightarrow> ('k \<times> 'v) list \<Rightarrow> ('k \<times> 'v) list" where
  "dict_setitem k v [] = [(k, v)]"
| "dict_setitem k v ((k', v') # d) =
     (if k' = k then (k', v) # d else (k', v') # dict_setitem k v d)"

text \<open>The keys of a dictionary and \<^verbatim>\<open>k in d\<close>.\<close>

definition dict_keys :: "('k \<times> 'v) list \<Rightarrow> 'k list" where
  "dict_keys d = map fst d"

definition dict_has :: "('k \<times> 'v) list \<Rightarrow> 'k \<Rightarrow> bool" where
  "dict_has d k = (k \<in> set (dict_keys d))"

text \<open>\<^verbatim>\<open>d.pop(k, default)\<close>: the value removed (or the default) and the dictionary left.\<close>

definition dict_remove :: "'k \<Rightarrow> ('k \<times> 'v) list \<Rightarrow> ('k \<times> 'v) list" where
  "dict_remove k d = filter (\<lambda>kv. fst kv \<noteq> k) d"

definition dict_pop :: "'k \<Rightarrow> 'v \<Rightarrow> ('k \<times> 'v) list \<Rightarrow> 'v \<times> ('k \<times> 'v) list" where
  "dict_pop k dflt d =
     (case map_of d k of None \<Rightarrow> (dflt, d) | Some v \<Rightarrow> (v, dict_remove k d))"

text \<open>Truth value of an object, as tested by \<^verbatim>\<open>if x:\<close> and \<^verbatim>\<open>not x\<close>.\<close>

fun truthy :: "pyval \<Rightarrow> bool" where
  "truthy PNone = False"
| "truthy (PInt i) = (i \<noteq> 0)"
| "truthy (PStr s) = (s \<noteq> [])"
| "truthy (PList xs) = (xs \<noteq> [])"
| "truthy (PTuple xs) = (xs \<noteq> [])"
| "truthy (PDict kvs) = (kvs \<noteq> [])"
| "truthy (PCallable c) = True"
| "truthy (PObj a) = True"

text \<open>The builtin \<^verbatim>\<open>callable\<close> and \<^verbatim>\<open>isinstance(x, dict)\<close>.\<close>

fun callable :: "pyval \<Rightarrow> bool" where
  "callable (PCallable c) = True"
| "callable _ = False"

fun isinstance_dict :: "pyval \<Rightarrow> bool" where
  "isinstance_dict (PDict kvs) = True"
| "isinstance_dict _ = False"

text \<open>
  Iterating over an object to the end: the elements of a list or tuple, the one-character
  strings of a string, the keys of a dictionary; anything else is not iterable.
\<close>

fun py_iter :: "pyval \<Rightarrow> error + pyval list" where
  "py_iter (PList xs) = Inr xs"
| "py_iter (PTuple xs) = Inr xs"
| "py_iter (PStr s) = Inr (map (\<lambda>c. PStr [c]) s)"
| "py_iter (PDict kvs) = Inr (dict_keys kvs)"
| "py_iter _ = Inl TypeError"

text \<open>Lists and dictionaries cannot be dictionary keys; a tuple can when its elements can.\<close>

fun hashable :: "pyval \<Rightarrow> bool" where
  "hashable (PList xs) = False"
| "hashable (PDict kvs) = False"
| "hashable (PTuple xs) = list_all hashable xs"
| "hashable _ = True"

text \<open>
  \<^verbatim>\<open>s in x\<close> for a string \<open>s\<close>: a key of a dictionary, an element of a list or tuple, a
  substring of a string; a type error on anything else.
\<close>

fun py_contains :: "string \<Rightarrow> pyval \<Rightarrow> error + bool" where
  "py_contains s (PDict kvs) = Inr (dict_has kvs (PStr s))"
| "py_contains s (PList xs) = Inr (PStr s \<in> set xs)"
| "py_contains s (PTuple xs) = Inr (PStr s \<in> set xs)"
| "py_contains s (PStr t) = Inr (sublist s t)"
| "py_contains s _ = Inl TypeError"

text \<open>\<^verbatim>\<open>x[s]\<close> for a string \<open>s\<close>: only a dictionary can be indexed by a string.\<close>

fun py_getitem :: "pyval \<Rightarrow> string \<Rightarrow> error + pyval" where
  "py_getitem (PDict kvs) s =
     (case map_of kvs (PStr s) of None \<Rightarrow> Inl KeyError | Some v \<Rightarrow> Inr v)"
| "py_getitem _ s = Inl TypeError"

text \<open>
  \<^verbatim>\<open>d.update(other)\<close>. A dictionary is merged item by item. Any other object is iterated,
  and each element must itself be iterable with exactly two elements, a hashable key and
  a value.
\<close>

fun merge_from_seq2 :: "pydict \<Rightarrow> pyval list \<Rightarrow> error + pydict" where
  "merge_from_seq2 d [] = Inr d"
| "merge_from_seq2 d (item # items) =
     (case py_iter item of
        Inl e \<Rightarrow> Inl TypeError
      | Inr fast \<Rightarrow>
          (case fast of
             [k, v] \<Rightarrow>
               if hashable k then merge_from_seq2 (dict_setitem k v d) items
               else Inl TypeError
           | _ \<Rightarrow> Inl ValueError))"

definition dict_update :: "pydict \<Rightarrow> pyval \<Rightarrow> error + pydict" where
  "dict_update d other =
     (case other of
        PDict kvs \<Rightarrow> Inr (fold (\<lambda>(k, v). dict_setitem k v) kvs d)
      | _ \<Rightarrow> (case py_iter other of
                Inl e \<Rightarrow> Inl e
              | Inr items \<Rightarrow> merge_from_seq2 d items))"

section \<open>The prototype resolver\<close>

text \<open>
  \<^verbatim>\<open>_get_prototype(dic, prot)\<close>. The accumulator \<open>prot\<close> is one dictionary object that
  every recursive call updates in place and returns, so \<open>new_prot\<close> is \<open>prot\<close> itself when
  the loop body runs \<^verbatim>\<open>prot.update(new_prot)\<close>. \<open>inherit\<close> is the \<^verbatim>\<open>for\<close> loop over the
  parents.
\<close>

function get_prototype :: "pyval \<Rightarrow> pydict \<Rightarrow> error + pydict"
  and inherit :: "pyval list \<Rightarrow> pydict \<Rightarrow> error + pydict"
where
  "get_prototype dic prot =
     (case py_contains ''prototype'' dic of
        Inl e \<Rightarrow> Inl e
      | Inr has \<Rightarrow>
          (case (if has then
                   (case py_getitem dic ''prototype'' of
                      Inl e \<Rightarrow> Inl e
                    | Inr prototypes \<Rightarrow>
                        (case py_iter (if isinstance_dict prototypes
                                       then PTuple [prototypes] else prototypes) of
                           Inl e \<Rightarrow> Inl e
                         | Inr ps \<Rightarrow> inherit ps prot))
                 else Inr prot) of
             Inl e \<Rightarrow> Inl e
           | Inr prot1 \<Rightarrow>
               (case dict_update prot1 dic of
                  Inl e \<Rightarrow> Inl e
                | Inr prot2 \<Rightarrow> Inr (dict_remove (PStr ''prototype'') prot2))))"
| "inherit [] prot = Inr prot"
| "inherit (prototype # rest) prot =
     (case get_prototype prototype prot of
        Inl e \<Rightarrow> Inl e
      | Inr new_prot \<Rightarrow>
          (case dict_update new_prot (PDict new_prot) of
             Inl e \<Rightarrow> Inl e
           | Inr prot' \<Rightarrow> inherit rest prot'))"
  by pat_completeness auto

text \<open>
  Termination: every parent is a strict part of the dictionary that names it. The parents
  of one dictionary are measured by the largest of their sizes (a string has as many
  one-character elements as it is long, all of size 0).
\<close>

fun max_size :: "pyval list \<Rightarrow> nat" where
  "max_size [] = 0"
| "max_size (p # ps) = max (size p) (max_size ps)"

lemma max_size_le_size_list: "max_size ps \<le> size_list size ps"
  by (induction ps) auto

lemma max_size_keys: "max_size (map fst kvs) \<le> size_list (size_prod size size) kvs"
  by (induction kvs) auto

lemma max_size_chars: "max_size (map (\<lambda>c. PStr [c]) s) = 0"
  by (induction s) auto

lemma py_iter_size: "max_size ps \<le> size v" if "py_iter v = Inr ps"
proof (cases v)
  case (PList xs)
  then show ?thesis using that max_size_le_size_list[of xs] by simp
next
  case (PTuple xs)
  then show ?thesis using that max_size_le_size_list[of xs] by simp
next
  case (PDict kvs)
  then show ?thesis using that max_size_keys[of kvs] by (simp add: dict_keys_def)
qed (use that in \<open>auto simp: max_size_chars\<close>)

lemma map_of_size: "map_of kvs k = Some v \<Longrightarrow> size v < size_list (size_prod size size) kvs"
  by (induction kvs) (auto split: if_splits)

lemma py_getitem_size: "py_getitem dic s = Inr v \<Longrightarrow> size v < size dic"
  by (cases dic) (auto split: option.splits dest: map_of_size)

lemma parents_size:
  assumes "py_getitem dic s = Inr v"
    and "py_iter (if isinstance_dict v then PTuple [v] else v) = Inr ps"
  shows "max_size ps < size dic"
proof (cases "isinstance_dict v")
  case True
  with assms(2) have "ps = [v]" by simp
  with assms(1) show ?thesis by (simp add: py_getitem_size)
next
  case False
  with assms(2) have "max_size ps \<le> size v" by (simp add: py_iter_size)
  with py_getitem_size[OF assms(1)] show ?thesis by simp
qed

termination get_prototype
proof (relation "inv_image (less_than <*lex*> less_than)
      (\<lambda>x. case x of Inl (dic, prot) \<Rightarrow> (2 * size dic, 0::nat)
                  | Inr (ps, prot) \<Rightarrow> (2 * max_size ps + 1, length ps))", goal_cases)
  case 1
  show ?case by (intro wf_inv_image wf_lex_prod wf_less_than)
next
  case (2 dic prot has prototypes ps)
  then show ?case using parents_size[of dic "''prototype''" prototypes ps] by simp
next
  case (3 prototype rest prot)
  show ?case by (auto simp: max_def)
next
  case (4 prototype rest prot new_prot prot')
  show ?case by (auto simp: max_def)
qed

declare get_prototype.simps [simp del]

text \<open>
  The parents a \<^verbatim>\<open>prototype\<close> value stands for, in the order the loop visits them: a
  dictionary is its own single parent, anything else is iterated.
\<close>

definition parent_list :: "pyval \<Rightarrow> error + pyval list" where
  "parent_list prototypes =
     py_iter (if isinstance_dict prototypes then PTuple [prototypes] else prototypes)"

text \<open>
  The parents the resolver visits for \<open>dic\<close> (none when the resolver fails before its
  loop), and all ancestors: the parents, each followed by its own ancestors.
\<close>

definition parents :: "pyval \<Rightarrow> pyval list" where
  "parents dic =
     (case py_contains ''prototype'' dic of
        Inr True \<Rightarrow>
          (case py_getitem dic ''prototype'' of
             Inr prototypes \<Rightarrow> (case parent_list prototypes of Inr ps \<Rightarrow> ps | Inl e \<Rightarrow> [])
           | Inl e \<Rightarrow> [])
      | _ \<Rightarrow> [])"

lemma max_size_mem: "p \<in> set ps \<Longrightarrow> size p \<le> max_size ps"
  by (induction ps) auto

lemma parents_smaller: "p \<in> set (parents dic) \<Longrightarrow> size p < size dic"
  using parents_size[of dic "''prototype''"] max_size_mem[of p]
  by (fastforce simp: parents_def parent_list_def split: sum.splits bool.splits)

function ancestors :: "pyval \<Rightarrow> pyval list" where
  "ancestors dic = concat (map (\<lambda>p. p # ancestors p) (parents dic))"
  by pat_completeness auto

termination
  by (relation "measure size") (auto simp: parents_smaller)

declare ancestors.simps [simp del]

text \<open>The resolved mapping of \<open>p\<close> on its own, that is from the empty accumulator.\<close>

definition resolved_map :: "pyval \<Rightarrow> (pyval \<rightharpoonup> pyval)" where
  "resolved_map p = (case get_prototype p [] of Inl e \<Rightarrow> Map.empty | Inr m \<Rightarrow> map_of m)"

text \<open>
  A specification is well formed when it is a dictionary and its \<^verbatim>\<open>prototype\<close> field, if
  any, is a dictionary or a list or tuple, and every parent is well formed in turn.
\<close>

fun is_sequence :: "pyval \<Rightarrow> bool" where
  "is_sequence (PList xs) = True"
| "is_sequence (PTuple xs) = True"
| "is_sequence _ = False"

function well_formed :: "pyval \<Rightarrow> bool" where
  "well_formed dic =
     (isinstance_dict dic \<and>
      (case py_getitem dic ''prototype'' of
         Inl e \<Rightarrow> True
       | Inr prototypes \<Rightarrow>
           (isinstance_dict prototypes \<or> is_sequence prototypes) \<and>
           list_all well_formed (parents dic)))"
  by pat_completeness auto

termination
  by (relation "measure size") (auto simp: parents_smaller)

declare well_formed.simps [simp del]

section \<open>The outside world\<close>

text \<open>
  The keyword arguments of \<^verbatim>\<open>ObjectDB(...)\<close> and the six-part tuple that \<open>spawn\<close> packs for
  each specification: \<^verbatim>\<open>(create, permissions, locks, aliases, nattributes, attributes)\<close>.
\<close>

record create_kwargs =
  db_key :: pyval
  db_location :: pyval
  db_home :: pyval
  db_destination :: pyval
  db_typeclass_path :: pyval

record objparam =
  create :: create_kwargs
  permissions :: pyval
  locks :: pyval
  aliases :: pyval
  nattributes :: pydict
  attributes :: pydict

text \<open>
  What the module does to its surroundings is recorded as a trace of events: a draw of
  \<^verbatim>\<open>randint(1, 100000)\<close>, a call of a function object with its outcome, a call of
  \<^verbatim>\<open>handle_dbref\<close> with its outcome, and the calls on the object store, which carry the
  batch position of the entity: construction, the access to \<^verbatim>\<open>dbobj.typeclass\<close>, the
  hooks and the attachment handlers.
\<close>

datatype event =
    Randint int
  | Invoke nat "error + pyval"
  | HandleDbref pyval "error + pyval"
  | Construct nat create_kwargs
  | Typeclass nat
  | BasetypeSetup nat
  | AtObjectCreation nat
  | PermissionsAdd nat pyval
  | LocksAdd nat pyval
  | AliasesAdd nat pyval
  | NattributesAdd nat pyval pyval
  | AttributesBatchAdd nat "pyval list" "pyval list"
  | BasetypePosthookSetup nat

text \<open>
  The surroundings are a parameter. Each answer may depend on everything that happened
  before: the number drawn, what a function object returns or raises, what
  \<^verbatim>\<open>handle_dbref\<close> returns or raises, whether a call on the object store raises, and the two
  settings.
\<close>

record world =
  randint :: "event list \<Rightarrow> int"
  invoke :: "event list \<Rightarrow> nat \<Rightarrow> error + pyval"
  handle_dbref :: "event list \<Rightarrow> pyval \<Rightarrow> error + pyval"
  raises :: "event list \<Rightarrow> event \<Rightarrow> error option"
  DEFAULT_HOME :: pyval
  BASE_OBJECT_TYPECLASS :: pyval

text \<open>
  A created entity is known by its position in the batch and the arguments it was
  constructed from. A run takes the trace so far and returns a value or an exception,
  with the trace extended; an exception ends the run, as nothing in the module catches one.
\<close>

datatype entity = Entity (position: nat) (created_from: create_kwargs)

type_synonym 'a run = "event list \<Rightarrow> (error + 'a) \<times> event list"

definition ret :: "'a \<Rightarrow> 'a run" where
  "ret x tr = (Inr x, tr)"

definition lift :: "error + 'a \<Rightarrow> 'a run" where
  "lift r tr = (r, tr)"

definition bind :: "'a run \<Rightarrow> ('a \<Rightarrow> 'b run) \<Rightarrow> 'b run" where
  "bind m f tr = (case m tr of (Inl e, tr') \<Rightarrow> (Inl e, tr') | (Inr x, tr') \<Rightarrow> f x tr')"

definition call_randint :: "world \<Rightarrow> int run" where
  "call_randint w tr = (Inr (randint w tr), tr @ [Randint (randint w tr)])"

definition call_value :: "world \<Rightarrow> nat \<Rightarrow> pyval run" where
  "call_value w c tr = (invoke w tr c, tr @ [Invoke c (invoke w tr c)])"

definition call_handle_dbref :: "world \<Rightarrow> pyval \<Rightarrow> pyval run" where
  "call_handle_dbref w inp tr = (handle_dbref w tr inp, tr @ [HandleDbref inp (handle_dbref w tr inp)])"

definition store_call :: "world \<Rightarrow> event \<Rightarrow> unit run" where
  "store_call w ev tr =
     (case raises w tr ev of None \<Rightarrow> (Inr (), tr @ [ev]) | Some e \<Rightarrow> (Inl e, tr @ [ev]))"

section \<open>The spawner\<close>

text \<open>\<^verbatim>\<open>"Spawned Object %06i" % n\<close>: the number in decimal, zero-padded to six places.\<close>

fun decimal :: "nat \<Rightarrow> string" where
  "decimal n = (if n < 10 then [''0123456789'' ! n]
                else decimal (n div 10) @ [''0123456789'' ! (n mod 10)])"

declare decimal.simps [simp del]

definition format_06i :: "int \<Rightarrow> string" where
  "format_06i n =
     (if n < 0 then CHR ''-'' # replicate (5 - length (decimal (nat (- n)))) CHR ''0''
                      @ decimal (nat (- n))
      else replicate (6 - length (decimal (nat n))) CHR ''0'' @ decimal (nat n))"

definition spawned_object_name :: "int \<Rightarrow> pyval" where
  "spawned_object_name n = PStr (''Spawned Object '' @ format_06i n)"

definition CREATE_OBJECT_KWARGS :: "pyval list" where
  "CREATE_OBJECT_KWARGS = [PStr ''key'', PStr ''location'', PStr ''home'', PStr ''destination'']"

text \<open>\<^verbatim>\<open>key.startswith(pre)\<close> and \<^verbatim>\<open>key.split("_", 1)[1]\<close>; only strings have these methods.\<close>

fun py_startswith :: "pyval \<Rightarrow> string \<Rightarrow> error + bool" where
  "py_startswith (PStr s) pre = Inr (take (length pre) s = pre)"
| "py_startswith _ pre = Inl AttributeError"

fun split_underscore_second :: "pyval \<Rightarrow> error + pyval" where
  "split_underscore_second (PStr s) =
     (if CHR ''_'' \<in> set s
      then Inr (PStr (tl (dropWhile (\<lambda>c. c \<noteq> CHR ''_'') s)))
      else Inl IndexError)"
| "split_underscore_second _ = Inl AttributeError"

text \<open>
  The two generator expressions of \<open>spawn\<close>, each run over \<^verbatim>\<open>prot.items()\<close> and collected
  by \<^verbatim>\<open>dict\<close>. The first calls nothing. The second calls every callable value it keeps.
\<close>

fun make_nattributes :: "pydict \<Rightarrow> pydict \<Rightarrow> error + pydict" where
  "make_nattributes [] acc = Inr acc"
| "make_nattributes ((key, value) # items) acc =
     (case py_startswith key ''ndb_'' of
        Inl e \<Rightarrow> Inl e
      | Inr False \<Rightarrow> make_nattributes items acc
      | Inr True \<Rightarrow>
          (case split_underscore_second key of
             Inl e \<Rightarrow> Inl e
           | Inr name \<Rightarrow>
               make_nattributes items
                 (dict_setitem name (if callable value then value else value) acc)))"

fun make_attributes :: "world \<Rightarrow> pydict \<Rightarrow> pydict \<Rightarrow> pydict \<Rightarrow> pydict run" where
  "make_attributes w nattrs [] acc = ret acc"
| "make_attributes w nattrs ((key, value) # items) acc =
     (if \<not> (key \<in> set CREATE_OBJECT_KWARGS \<or> dict_has nattrs key)
      then bind (case value of PCallable c \<Rightarrow> call_value w c | _ \<Rightarrow> ret value)
             (\<lambda>v. make_attributes w nattrs items (dict_setitem key v acc))
      else make_attributes w nattrs items acc)"

text \<open>The body of the loop of \<open>spawn\<close> for one non-empty resolved mapping.\<close>

definition build_objparam :: "world \<Rightarrow> pydict \<Rightarrow> objparam run" where
  "build_objparam w prot0 =
     bind (call_randint w) (\<lambda>n.
     case dict_pop (PStr ''key'') (spawned_object_name n) prot0 of (key, prot1) \<Rightarrow>
     case dict_pop (PStr ''location'') PNone prot1 of (location, prot2) \<Rightarrow>
     bind (call_handle_dbref w location) (\<lambda>location'.
     case dict_pop (PStr ''home'') (DEFAULT_HOME w) prot2 of (home, prot3) \<Rightarrow>
     bind (call_handle_dbref w home) (\<lambda>home'.
     case dict_pop (PStr ''destination'') PNone prot3 of (destination, prot4) \<Rightarrow>
     bind (call_handle_dbref w destination) (\<lambda>destination'.
     case dict_pop (PStr ''typeclass'') (BASE_OBJECT_TYPECLASS w) prot4 of (typeclass, prot5) \<Rightarrow>
     case dict_pop (PStr ''permissions'') (PStr []) prot5 of (permission_string, prot6) \<Rightarrow>
     case dict_pop (PStr ''locks'') (PStr []) prot6 of (lock_string, prot7) \<Rightarrow>
     case dict_pop (PStr ''aliases'') (PStr []) prot7 of (alias_string, prot8) \<Rightarrow>
     bind (lift (make_nattributes prot8 [])) (\<lambda>nattrs.
     bind (make_attributes w nattrs prot8 []) (\<lambda>attrs.
     ret \<lparr>create = \<lparr>db_key = key, db_location = location', db_home = home',
                      db_destination = destination', db_typeclass_path = typeclass\<rparr>,
          permissions = permission_string, locks = lock_string, aliases = alias_string,
          nattributes = nattrs, attributes = attrs\<rparr>))))))"

fun spawn_loop :: "world \<Rightarrow> pyval list \<Rightarrow> objparam list \<Rightarrow> objparam list run" where
  "spawn_loop w [] objsparams = ret objsparams"
| "spawn_loop w (prototype # rest) objsparams =
     bind (lift (get_prototype prototype [])) (\<lambda>prot.
       if prot = [] then spawn_loop w rest objsparams
       else bind (build_objparam w prot)
              (\<lambda>objparam. spawn_loop w rest (objsparams @ [objparam])))"

section \<open>Batch creation\<close>

text \<open>
  \<^verbatim>\<open>_batch_create_object\<close>: all objects are constructed first; then, entity by entity, the
  hooks are called and the handlers attach what the parameters hold.
\<close>

fun construct_all :: "world \<Rightarrow> nat \<Rightarrow> objparam list \<Rightarrow> entity list run" where
  "construct_all w i [] = ret []"
| "construct_all w i (objparam # rest) =
     bind (store_call w (Construct i (create objparam))) (\<lambda>_.
     bind (construct_all w (Suc i) rest) (\<lambda>dbobjs.
     ret (Entity i (create objparam) # dbobjs)))"

fun nattributes_add_all :: "world \<Rightarrow> nat \<Rightarrow> pydict \<Rightarrow> unit run" where
  "nattributes_add_all w i [] = ret ()"
| "nattributes_add_all w i ((key, value) # items) =
     bind (store_call w (NattributesAdd i key value)) (\<lambda>_. nattributes_add_all w i items)"

definition setup_object :: "world \<Rightarrow> nat \<Rightarrow> objparam \<Rightarrow> unit run" where
  "setup_object w i objparam =
     bind (store_call w (Typeclass i)) (\<lambda>_.
     bind (store_call w (BasetypeSetup i)) (\<lambda>_.
     bind (store_call w (AtObjectCreation i)) (\<lambda>_.
     bind (if truthy (permissions objparam)
           then store_call w (PermissionsAdd i (permissions objparam)) else ret ()) (\<lambda>_.
     bind (if truthy (locks objparam)
           then store_call w (LocksAdd i (locks objparam)) else ret ()) (\<lambda>_.
     bind (if truthy (aliases objparam)
           then store_call w (AliasesAdd i (aliases objparam)) else ret ()) (\<lambda>_.
     bind (if nattributes objparam \<noteq> []
           then nattributes_add_all w i (nattributes objparam) else ret ()) (\<lambda>_.
     bind (if attributes objparam \<noteq> []
           then store_call w (AttributesBatchAdd i (dict_keys (attributes objparam))
                                (map snd (attributes objparam)))
           else ret ()) (\<lambda>_.
     store_call w (BasetypePosthookSetup i)))))))))"

fun setup_loop :: "world \<Rightarrow> objparam list \<Rightarrow> (nat \<times> entity) list \<Rightarrow> entity list
                     \<Rightarrow> entity list run" where
  "setup_loop w objparams [] objs = ret objs"
| "setup_loop w objparams ((iobj, dbobj) # rest) objs =
     (if iobj < length objparams
      then bind (setup_object w (position dbobj) (objparams ! iobj))
             (\<lambda>_. setup_loop w objparams rest (objs @ [dbobj]))
      else lift (Inl IndexError))"

definition batch_create_object :: "world \<Rightarrow> objparam list \<Rightarrow> entity list run" where
  "batch_create_object w objparams =
     bind (construct_all w 0 objparams)
       (\<lambda>dbobjs. setup_loop w objparams (enumerate 0 dbobjs) [])"

definition spawn :: "world \<Rightarrow> pyval list \<Rightarrow> entity list run" where
  "spawn w prototypes =
     bind (spawn_loop w prototypes []) (\<lambda>objsparams. batch_create_object w objsparams)"

section \<open>The schedule of a batch\<close>

text \<open>
  The calls on the object store that the specification prescribes for one entity, and for
  a whole batch: all constructions first, then entity by entity the two creation hooks,
  the attachments in their fixed order, and the post-hook setup.
\<close>

definition attachment_events :: "nat \<Rightarrow> objparam \<Rightarrow> event list" where
  "attachment_events i objparam =
     (if truthy (permissions objparam) then [PermissionsAdd i (permissions objparam)] else []) @
     (if truthy (locks objparam) then [LocksAdd i (locks objparam)] else []) @
     (if truthy (aliases objparam) then [AliasesAdd i (aliases objparam)] else []) @
     map (\<lambda>(key, value). NattributesAdd i key value) (nattributes objparam) @
     (if attributes objparam \<noteq> []
      then [AttributesBatchAdd i (dict_keys (attributes objparam)) (map snd (attributes objparam))]
      else [])"

definition entity_events :: "nat \<Rightarrow> objparam \<Rightarrow> event list" where
  "entity_events i objparam =
     [Typeclass i, BasetypeSetup i, AtObjectCreation i] @ attachment_events i objparam @
     [BasetypePosthookSetup i]"

definition batch_events :: "objparam list \<Rightarrow> event list" where
  "batch_events objparams =
     map (\<lambda>(i, objparam). Construct i (create objparam)) (enumerate 0 objparams) @
     concat (map (\<lambda>(i, objparam). entity_events i objparam) (enumerate 0 objparams))"

definition constructed :: "nat \<Rightarrow> objparam list \<Rightarrow> entity list" where
  "constructed i objparams =
     map (\<lambda>(j, objparam). Entity j (create objparam)) (enumerate i objparams)"

section \<open>Notions used in the statements\<close>

text \<open>
  The accumulator handed to the resolver never holds the key \<^verbatim>\<open>prototype\<close> and, being a
  dictionary, has each key once. A step of the resolver either fails in the same way on
  every accumulator, or succeeds on every accumulator and overlays one fixed mapping.
\<close>

definition acc_ok :: "pydict \<Rightarrow> bool" where
  "acc_ok a \<longleftrightarrow> distinct (dict_keys a) \<and> PStr ''prototype'' \<notin> set (dict_keys a)"

definition fails :: "(pydict \<Rightarrow> error + pydict) \<Rightarrow> error \<Rightarrow> bool" where
  "fails f e \<longleftrightarrow> (\<forall>a. f a = Inl e)"

definition adds :: "(pydict \<Rightarrow> error + pydict) \<Rightarrow> (pyval \<rightharpoonup> pyval) \<Rightarrow> bool" where
  "adds f M \<longleftrightarrow>
     (\<forall>a. \<exists>r. f a = Inr r \<and> map_of r = map_of a ++ M \<and>
        (distinct (dict_keys a) \<longrightarrow> distinct (dict_keys r)))"

definition resolves :: "(pydict \<Rightarrow> error + pydict) \<Rightarrow> (pyval \<rightharpoonup> pyval) \<Rightarrow> bool" where
  "resolves f M \<longleftrightarrow>
     PStr ''prototype'' \<notin> dom M \<and>
     (\<forall>a. \<exists>r. f a = Inr r \<and> (acc_ok a \<longrightarrow> acc_ok r \<and> map_of r = map_of a ++ M))"

text \<open>
  A run follows a schedule when, from every trace, it either makes exactly the calls of
  the schedule and returns, or stops at the first call that raises, with that exception.
\<close>

definition follows :: "world \<Rightarrow> 'a run \<Rightarrow> event list \<Rightarrow> 'a \<Rightarrow> bool" where
  "follows w m evs x \<longleftrightarrow>
     (\<forall>tr. m tr = (Inr x, tr @ evs) \<or>
           (\<exists>e pre ev. m tr = (Inl e, tr @ pre @ [ev]) \<and> prefix (pre @ [ev]) evs \<and>
                       raises w (tr @ pre) ev = Some e))"

text \<open>
  Making the calls of a schedule one after the other, from a trace: the first call that
  raises ends the schedule with its exception, and the calls after it are not made.
\<close>

fun run_schedule :: "world \<Rightarrow> event list \<Rightarrow> event list \<Rightarrow> error option \<times> event list" where
  "run_schedule w [] tr = (None, tr)"
| "run_schedule w (ev # evs) tr =
     (case raises w tr ev of
        Some e \<Rightarrow> (Some e, tr @ [ev])
      | None \<Rightarrow> run_schedule w evs (tr @ [ev]))"

text \<open>A run does exactly what its schedule does, and returns \<open>x\<close> when no call raises.\<close>

definition exactly :: "world \<Rightarrow> 'a run \<Rightarrow> event list \<Rightarrow> 'a \<Rightarrow> bool" where
  "exactly w m evs x \<longleftrightarrow>
     (\<forall>tr. m tr = (case run_schedule w evs tr of
                     (None, tr') \<Rightarrow> (Inr x, tr')
                   | (Some e, tr') \<Rightarrow> (Inl e, tr')))"

definition RESERVED :: "pyval list" where
  "RESERVED = [PStr ''key'', PStr ''location'', PStr ''home'', PStr ''destination'',
               PStr ''typeclass'', PStr ''permissions'', PStr ''locks'', PStr ''aliases'']"

definition unreserved :: "pydict \<Rightarrow> pydict" where
  "unreserved prot = filter (\<lambda>kv. fst kv \<notin> set RESERVED) prot"

definition field_or :: "pydict \<Rightarrow> string \<Rightarrow> pyval \<Rightarrow> pyval" where
  "field_or prot name dflt = (case map_of prot (PStr name) of None \<Rightarrow> dflt | Some v \<Rightarrow> v)"

text \<open>The resolved mapping of a specification, empty when resolution fails.\<close>

definition resolved :: "pyval \<Rightarrow> pydict" where
  "resolved p = (case get_prototype p [] of Inl e \<Rightarrow> [] | Inr m \<Rightarrow> m)"

text \<open>An entity and the resolved mapping it was created from.\<close>

definition built_from :: "world \<Rightarrow> create_kwargs \<Rightarrow> pydict \<Rightarrow> bool" where
  "built_from w kwargs prot \<longleftrightarrow>
     (\<exists>objparam tr tr'. build_objparam w prot tr = (Inr objparam, tr') \<and>
        kwargs = create objparam) \<and>
     (\<forall>k. map_of prot (PStr ''key'') = Some k \<longrightarrow> db_key kwargs = k)"

text \<open>The event is a call of a function object that is the value of one of the items.\<close>

definition invokes_field :: "pydict \<Rightarrow> event \<Rightarrow> bool" where
  "invokes_field items ev \<longleftrightarrow> (\<exists>c r k. ev = Invoke c r \<and> (k, PCallable c) \<in> set items)"

text \<open>
  Every call of a function object among the events is a call of the value of a field,
  other than the reserved ones, of the resolved mapping of one of the specifications.
\<close>

definition only_field_calls :: "pyval list \<Rightarrow> event list \<Rightarrow> bool" where
  "only_field_calls ps evs \<longleftrightarrow>
     (\<forall>ev\<in>set evs. (\<exists>c r. ev = Invoke c r) \<longrightarrow>
        (\<exists>p\<in>set ps. invokes_field (unreserved (resolved p)) ev))"

text \<open>
  The five fields whose resolved value goes to the construction arguments or to a handler
  as it is, and what that means for the parameters built from a resolved mapping.
\<close>

definition PASSED_ON :: "pyval list" where
  "PASSED_ON = [PStr ''key'', PStr ''typeclass'', PStr ''permissions'', PStr ''locks'',
                PStr ''aliases'']"

definition passes_through :: "objparam \<Rightarrow> pydict \<Rightarrow> bool" where
  "passes_through objparam prot \<longleftrightarrow>
     (\<forall>v. (map_of prot (PStr ''key'') = Some v \<longrightarrow> db_key (create objparam) = v) \<and>
          (map_of prot (PStr ''typeclass'') = Some v \<longrightarrow> db_typeclass_path (create objparam) = v) \<and>
          (map_of prot (PStr ''permissions'') = Some v \<longrightarrow> permissions objparam = v) \<and>
          (map_of prot (PStr ''locks'') = Some v \<longrightarrow> locks objparam = v) \<and>
          (map_of prot (PStr ''aliases'') = Some v \<longrightarrow> aliases objparam = v))"

text \<open>The fields the second generator of \<open>spawn\<close> keeps as generic attributes.\<close>

definition generic_fields :: "pydict \<Rightarrow> pydict \<Rightarrow> pydict" where
  "generic_fields nattrs items =
     filter (\<lambda>kv. \<not> (fst kv \<in> set CREATE_OBJECT_KWARGS \<or> dict_has nattrs (fst kv))) items"

text \<open>
  A call of the function object that is the value of the field, returning the value that
  the attributes hold for the field.
\<close>

definition called_for :: "pydict \<Rightarrow> event \<Rightarrow> pyval \<times> pyval \<Rightarrow> bool" where
  "called_for attrs ev kv \<longleftrightarrow>
     (\<exists>c x. snd kv = PCallable c \<and> ev = Invoke c (Inr x) \<and> map_of attrs (fst kv) = Some x)"

section \<open>Example specifications and worlds, after the module's own test\<close>

definition GOBLIN :: pyval where
  "GOBLIN = PDict
     [(PStr ''key'', PStr ''goblin grunt''),
      (PStr ''health'', PCallable 0),
      (PStr ''resists'', PList [PStr ''cold'', PStr ''poison'']),
      (PStr ''attacks'', PList [PStr ''fists'']),
      (PStr ''weaknesses'', PList [PStr ''fire'', PStr ''light''])]"

definition GOBLIN_WIZARD :: pyval where
  "GOBLIN_WIZARD = PDict
     [(PStr ''prototype'', GOBLIN),
      (PStr ''key'', PStr ''goblin wizard''),
      (PStr ''spells'', PList [PStr ''fire ball'', PStr ''lighting bolt''])]"

definition ARCHWIZARD :: pyval where
  "ARCHWIZARD = PDict [(PStr ''attacks'', PList [PStr ''archwizard staff''])]"

definition GOBLIN_ARCHWIZARD_items :: pydict where
  "GOBLIN_ARCHWIZARD_items =
     [(PStr ''key'', PStr ''goblin archwizard''),
      (PStr ''prototype'', PTuple [GOBLIN_WIZARD, ARCHWIZARD])]"

definition GOBLIN_ARCHWIZARD :: pyval where
  "GOBLIN_ARCHWIZARD = PDict GOBLIN_ARCHWIZARD_items"

definition GOBLIN_ARCHWIZARD_resolved :: pydict where
  "GOBLIN_ARCHWIZARD_resolved =
     [(PStr ''key'', PStr ''goblin archwizard''),
      (PStr ''health'', PCallable 0),
      (PStr ''resists'', PList [PStr ''cold'', PStr ''poison'']),
      (PStr ''attacks'', PList [PStr ''archwizard staff'']),
      (PStr ''weaknesses'', PList [PStr ''fire'', PStr ''light'']),
      (PStr ''spells'', PList [PStr ''fire ball'', PStr ''lighting bolt''])]"

definition world0 :: world where
  "world0 = \<lparr>randint = (\<lambda>tr. 7), invoke = (\<lambda>tr c. Inr (PInt 25)),
             handle_dbref = (\<lambda>tr inp. Inr inp), raises = (\<lambda>tr ev. None),
             DEFAULT_HOME = PStr ''#2'',
             BASE_OBJECT_TYPECLASS = PStr ''src.objects.objects.Object''\<rparr>"

definition guard_kwargs :: create_kwargs where
  "guard_kwargs = \<lparr>db_key = PStr ''goblin guard'', db_location = PNone, db_home = PStr ''#2'',
                    db_destination = PNone,
                    db_typeclass_path = PStr ''src.objects.objects.Object''\<rparr>"

definition guard_objparam :: objparam where
  "guard_objparam = \<lparr>create = guard_kwargs, permissions = PStr ''Builders'', locks = PStr [],
                      aliases = PList [PStr ''gob''], nattributes = [(PStr ''mood'', PStr ''angry'')],
                      attributes = [(PStr ''hp'', PInt 3)]\<rparr>"

definition grunt_kwargs :: create_kwargs where
  "grunt_kwargs = \<lparr>db_key = PStr ''goblin grunt'', db_location = PNone, db_home = PStr ''#2'',
                    db_destination = PNone,
                    db_typeclass_path = PStr ''src.objects.objects.Object''\<rparr>"

definition grunt_objparam :: objparam where
  "grunt_objparam = \<lparr>create = grunt_kwargs, permissions = PStr [], locks = PStr [],
                      aliases = PStr [], nattributes = [], attributes = []\<rparr>"

text \<open>A world in which adding permissions to the first entity of a batch raises.\<close>

definition world1 :: world where
  "world1 = world0\<lparr>raises := (\<lambda>tr ev. case ev of
                 PermissionsAdd i v \<Rightarrow> if i = 0 then Some (Raised 1) else None
               | _ \<Rightarrow> None)\<rparr>"

definition archwizard_kwargs :: create_kwargs where
  "archwizard_kwargs = \<lparr>db_key = PStr ''goblin archwizard'', db_location = PNone,
                         db_home = PStr ''#2'', db_destination = PNone,
                         db_typeclass_path = PStr ''src.objects.objects.Object''\<rparr>"

text \<open>A specification whose key and permissions are function objects, as is one attribute.\<close>

definition LAZY_GOBLIN :: pyval where
  "LAZY_GOBLIN = PDict [(PStr ''key'', PCallable 3), (PStr ''permissions'', PCallable 4),
                        (PStr ''health'', PCallable 0)]"

definition lazy_kwargs :: create_kwargs where
  "lazy_kwargs = \<lparr>db_key = PCallable 3, db_location = PNone, db_home = PStr ''#2'',
                   db_destination = PNone,
                   db_typeclass_path = PStr ''src.objects.objects.Object''\<rparr>"

definition lazy_trace :: "event list" where
  "lazy_trace =
     [Randint 7, HandleDbref PNone (Inr PNone), HandleDbref (PStr ''#2'') (Inr (PStr ''#2'')),
      HandleDbref PNone (Inr PNone), Invoke 0 (Inr (PInt 25)),
      Construct 0 lazy_kwargs, Typeclass 0, BasetypeSetup 0, AtObjectCreation 0,
      PermissionsAdd 0 (PCallable 4), AttributesBatchAdd 0 [PStr ''health''] [PInt 25],
      BasetypePosthookSetup 0]"

section \<open>Properties of the resolver\<close>

lemma map_of_dict_setitem: "map_of (dict_setitem k v d) = (map_of d)(k \<mapsto> v)"
  by (induction d) auto

lemma dom_map_of_keys: "dom (map_of d) = set (dict_keys d)"
  by (simp add: dom_map_of_conv_image_fst dict_keys_def)

lemma keys_dict_setitem: "set (dict_keys (dict_setitem k v d)) = insert k (set (dict_keys d))"
  by (simp add: dom_map_of_keys[symmetric] map_of_dict_setitem)

lemma distinct_dict_setitem:
  "distinct (dict_keys d) \<Longrightarrow> distinct (dict_keys (dict_setitem k v d))"
proof (induction d)
  case Nil
  show ?case by (simp add: dict_keys_def)
next
  case (Cons kv d)
  have "set (dict_keys (dict_setitem k v d)) = insert k (set (dict_keys d))"
    by (rule keys_dict_setitem)
  with Cons show ?case by (cases kv) (auto simp: dict_keys_def)
qed

lemma map_of_fold_setitem:
  "map_of (fold (\<lambda>(k, v). dict_setitem k v) kvs d) = map_of d ++ map_of (rev kvs)"
proof (induction kvs arbitrary: d)
  case Nil
  show ?case by simp
next
  case (Cons kv kvs)
  obtain k v where kv: "kv = (k, v)" by (cases kv)
  have "map_of (fold (\<lambda>(k, v). dict_setitem k v) (kv # kvs) d)
      = (map_of d)(k \<mapsto> v) ++ map_of (rev kvs)"
    by (simp add: kv Cons.IH map_of_dict_setitem fun_upd_def)
  also have "\<dots> = map_of d ++ map_of (rev (kv # kvs))"
    by (simp add: kv map_add_def fun_eq_iff split: option.splits)
  finally show ?case .
qed

lemma distinct_fold_setitem:
  "distinct (dict_keys d) \<Longrightarrow> distinct (dict_keys (fold (\<lambda>(k, v). dict_setitem k v) kvs d))"
  by (induction kvs arbitrary: d) (auto simp: distinct_dict_setitem)

lemma keys_fold_setitem:
  "set (dict_keys (fold (\<lambda>(k, v). dict_setitem k v) kvs d)) = set (dict_keys d) \<union> set (dict_keys kvs)"
  by (induction kvs arbitrary: d) (auto simp: keys_dict_setitem, auto simp: dict_keys_def)

lemma map_of_dict_remove: "map_of (dict_remove k d) = (map_of d)(k := None)"
  by (induction d) (auto simp: dict_remove_def)

lemma keys_dict_remove: "set (dict_keys (dict_remove k d)) = set (dict_keys d) - {k}"
  by (auto simp: dict_remove_def dict_keys_def)

lemma distinct_dict_remove: "distinct (dict_keys d) \<Longrightarrow> distinct (dict_keys (dict_remove k d))"
  by (simp add: dict_remove_def dict_keys_def distinct_map_filter)

lemma map_of_rev_distinct: "distinct (dict_keys d) \<Longrightarrow> map_of (rev d) = map_of d"
  by (rule map_of_inject_set[THEN iffD2]) (simp_all add: dict_keys_def distinct_rev rev_map[symmetric])

lemma self_update:
  assumes "distinct (dict_keys b)"
  shows "map_of (fold (\<lambda>(k, v). dict_setitem k v) b b) = map_of b"
  by (simp add: map_of_fold_setitem map_of_rev_distinct[OF assms] map_add_def fun_eq_iff
      split: option.splits)

lemma merge_from_seq2_uniform:
  "(\<exists>e. fails (\<lambda>a. merge_from_seq2 a items) e) \<or> (\<exists>M. adds (\<lambda>a. merge_from_seq2 a items) M)"
proof (induction items)
  case Nil
  have "adds (\<lambda>a. merge_from_seq2 a []) Map.empty" by (simp add: adds_def)
  then show ?case by blast
next
  case (Cons item items)
  show ?case
  proof (cases "py_iter item")
    case (Inl e)
    then have "fails (\<lambda>a. merge_from_seq2 a (item # items)) TypeError" by (simp add: fails_def)
    then show ?thesis by blast
  next
    case (Inr fast)
    show ?thesis
    proof (cases "\<exists>k v. fast = [k, v]")
      case False
      then have "fails (\<lambda>a. merge_from_seq2 a (item # items)) ValueError"
        using Inr by (auto simp: fails_def split: list.splits)
      then show ?thesis by blast
    next
      case True
      then obtain k v where fast: "fast = [k, v]" by blast
      show ?thesis
      proof (cases "hashable k")
        case False
        then have "fails (\<lambda>a. merge_from_seq2 a (item # items)) TypeError"
          using Inr fast by (simp add: fails_def)
        then show ?thesis by blast
      next
        case True
        have step: "merge_from_seq2 a (item # items) = merge_from_seq2 (dict_setitem k v a) items" for a
          using Inr fast True by simp
        from Cons.IH show ?thesis
        proof
          assume "\<exists>e. fails (\<lambda>a. merge_from_seq2 a items) e"
          then show ?thesis unfolding fails_def step by blast
        next
          assume "\<exists>M. adds (\<lambda>a. merge_from_seq2 a items) M"
          then obtain M where M: "adds (\<lambda>a. merge_from_seq2 a items) M" ..
          have "adds (\<lambda>a. merge_from_seq2 a (item # items)) ([k \<mapsto> v] ++ M)"
            unfolding adds_def step
          proof
            fix a
            from M obtain r where r: "merge_from_seq2 (dict_setitem k v a) items = Inr r"
              "map_of r = map_of (dict_setitem k v a) ++ M"
              "distinct (dict_keys (dict_setitem k v a)) \<longrightarrow> distinct (dict_keys r)"
              unfolding adds_def by blast
            have "map_of r = map_of a ++ ([k \<mapsto> v] ++ M)"
              by (simp add: r(2) map_of_dict_setitem map_add_def fun_eq_iff split: option.splits)
            with r(1,3) show "\<exists>r. merge_from_seq2 (dict_setitem k v a) items = Inr r \<and>
                map_of r = map_of a ++ ([k \<mapsto> v] ++ M) \<and>
                (distinct (dict_keys a) \<longrightarrow> distinct (dict_keys r))"
              by (auto simp: distinct_dict_setitem)
          qed
          then show ?thesis by blast
        qed
      qed
    qed
  qed
qed

lemma dict_update_uniform:
  "(\<exists>e. fails (\<lambda>a. dict_update a other) e) \<or> (\<exists>M. adds (\<lambda>a. dict_update a other) M)"
proof (cases "isinstance_dict other")
  case True
  then obtain kvs where "other = PDict kvs" by (cases other) auto
  then have "adds (\<lambda>a. dict_update a other) (map_of (rev kvs))"
    by (simp add: adds_def dict_update_def map_of_fold_setitem distinct_fold_setitem)
  then show ?thesis by blast
next
  case False
  show ?thesis
  proof (cases "py_iter other")
    case (Inl e)
    with False have "fails (\<lambda>a. dict_update a other) e"
      by (cases other) (auto simp: fails_def dict_update_def)
    then show ?thesis by blast
  next
    case (Inr items)
    with False have "dict_update a other = merge_from_seq2 a items" for a
      by (cases other) (auto simp: dict_update_def)
    then show ?thesis using merge_from_seq2_uniform[of items] by simp
  qed
qed

lemma get_prototype_unfold:
  "get_prototype dic a =
     (case py_contains ''prototype'' dic of
        Inl e \<Rightarrow> Inl e
      | Inr has \<Rightarrow>
          (case (if has then
                   (case py_getitem dic ''prototype'' of
                      Inl e \<Rightarrow> Inl e
                    | Inr prototypes \<Rightarrow>
                        (case parent_list prototypes of
                           Inl e \<Rightarrow> Inl e
                         | Inr ps \<Rightarrow> inherit ps a))
                 else Inr a) of
             Inl e \<Rightarrow> Inl e
           | Inr prot1 \<Rightarrow>
               (case dict_update prot1 dic of
                  Inl e \<Rightarrow> Inl e
                | Inr prot2 \<Rightarrow> Inr (dict_remove (PStr ''prototype'') prot2))))"
  unfolding parent_list_def by (rule get_prototype.simps)

lemma finish_resolves:
  assumes pre: "(\<exists>e. fails f e) \<or> (\<exists>M. resolves f M)"
    and g: "\<And>a. g a = (case f a of Inl e \<Rightarrow> Inl e
                 | Inr prot1 \<Rightarrow> (case dict_update prot1 dic of Inl e \<Rightarrow> Inl e
                      | Inr prot2 \<Rightarrow> Inr (dict_remove (PStr ''prototype'') prot2)))"
  shows "(\<exists>e. fails g e) \<or> (\<exists>M. resolves g M)"
  using pre
proof
  assume "\<exists>e. fails f e"
  then show ?thesis by (auto simp: fails_def g)
next
  assume "\<exists>M. resolves f M"
  then obtain M1 where M1: "resolves f M1" ..
  from dict_update_uniform[of dic] show ?thesis
  proof
    assume "\<exists>e. fails (\<lambda>a. dict_update a dic) e"
    then obtain e where "\<And>a. dict_update a dic = Inl e" by (auto simp: fails_def)
    then obtain e where e: "\<And>a. dict_update a dic = Inl e" by blast
    have "g a = Inl e" for a
    proof -
      obtain r where "f a = Inr r" using M1 unfolding resolves_def by blast
      then show ?thesis by (simp add: g e)
    qed
    then have "fails g e" by (simp add: fails_def)
    then show ?thesis by blast
  next
    assume "\<exists>M. adds (\<lambda>a. dict_update a dic) M"
    then obtain M2 where M2: "adds (\<lambda>a. dict_update a dic) M2" ..
    let ?M = "(M1 ++ M2)(PStr ''prototype'' := None)"
    have "resolves g ?M"
      unfolding resolves_def
    proof (intro conjI allI)
      show "PStr ''prototype'' \<notin> dom ?M" by simp
    next
      fix a
      from M1 obtain r1 where r1: "f a = Inr r1"
        "acc_ok a \<longrightarrow> acc_ok r1 \<and> map_of r1 = map_of a ++ M1"
        unfolding resolves_def by blast
      from M2 obtain r2 where r2: "dict_update r1 dic = Inr r2"
        "map_of r2 = map_of r1 ++ M2" "distinct (dict_keys r1) \<longrightarrow> distinct (dict_keys r2)"
        unfolding adds_def by blast
      let ?r = "dict_remove (PStr ''prototype'') r2"
      have res: "g a = Inr ?r" by (simp add: g r1(1) r2(1))
      have "acc_ok ?r \<and> map_of ?r = map_of a ++ ?M" if ok: "acc_ok a"
      proof
        from ok r1(2) r2(3) show "acc_ok ?r"
          by (simp add: acc_ok_def distinct_dict_remove keys_dict_remove)
        from ok have "map_of a (PStr ''prototype'') = None"
          by (simp add: acc_ok_def dom_map_of_keys[symmetric] domIff)
        then show "map_of ?r = map_of a ++ ?M"
          using ok r1(2) r2(2)
          by (auto simp: map_of_dict_remove map_add_def fun_eq_iff split: option.splits)
      qed
      with res show "\<exists>r. g a = Inr r \<and> (acc_ok a \<longrightarrow> acc_ok r \<and> map_of r = map_of a ++ ?M)"
        by blast
    qed
    then show ?thesis by blast
  qed
qed

lemma resolves_id: "resolves Inr Map.empty"
  by (simp add: resolves_def)

lemma fails_const: "fails (\<lambda>a. Inl e) e"
  by (simp add: fails_def)

lemma get_prototype_inherit_uniform:
  "(\<exists>e. fails (get_prototype dic) e) \<or> (\<exists>M. resolves (get_prototype dic) M)"
  "(\<exists>e. fails (inherit ps) e) \<or> (\<exists>M. resolves (inherit ps) M)"
proof (induction dic "prot0 :: pydict" and ps "prot0 :: pydict" rule: get_prototype_inherit.induct)
  case (1 dic prot0)
  let ?f = "\<lambda>a. (case py_contains ''prototype'' dic of
        Inl e \<Rightarrow> Inl e
      | Inr has \<Rightarrow>
          (if has then
                   (case py_getitem dic ''prototype'' of
                      Inl e \<Rightarrow> Inl e
                    | Inr prototypes \<Rightarrow>
                        (case parent_list prototypes of
                           Inl e \<Rightarrow> Inl e
                         | Inr ps \<Rightarrow> inherit ps a))
                 else Inr a))"
  have g: "get_prototype dic a = (case ?f a of Inl e \<Rightarrow> Inl e
                 | Inr prot1 \<Rightarrow> (case dict_update prot1 dic of Inl e \<Rightarrow> Inl e
                      | Inr prot2 \<Rightarrow> Inr (dict_remove (PStr ''prototype'') prot2)))" for a
    by (subst get_prototype_unfold) (simp split: sum.splits)
  have "(\<exists>e. fails ?f e) \<or> (\<exists>M. resolves ?f M)"
  proof (cases "py_contains ''prototype'' dic")
    case (Inl e)
    then show ?thesis using fails_const by auto
  next
    case has: (Inr has)
    show ?thesis
    proof (cases has)
      case False
      with has show ?thesis using resolves_id by auto
    next
      case True
      show ?thesis
      proof (cases "py_getitem dic ''prototype''")
        case (Inl e)
        with has True show ?thesis using fails_const by auto
      next
        case p: (Inr prototypes)
        show ?thesis
        proof (cases "parent_list prototypes")
          case (Inl e)
          with has True p show ?thesis using fails_const by auto
        next
          case (Inr ps)
          with has True p have "?f = inherit ps" by (simp add: fun_eq_iff)
          moreover have "(\<exists>e. fails (inherit ps) e) \<or> (\<exists>M. resolves (inherit ps) M)"
            using "1.IH"[OF has True p] Inr by (simp add: parent_list_def)
          ultimately show ?thesis by simp
        qed
      qed
    qed
  qed
  then show ?case by (rule finish_resolves) (rule g)
next
  case (2 prot0)
  have "inherit [] = Inr" by (simp add: fun_eq_iff)
  then show ?case using resolves_id by auto
next
  case (3 prototype rest prot0)
  from "3.IH"(1) show ?case
  proof
    assume "\<exists>e. fails (get_prototype prototype) e"
    then show ?thesis by (auto simp: fails_def)
  next
    assume "\<exists>M. resolves (get_prototype prototype) M"
    then obtain M1 where M1: "resolves (get_prototype prototype) M1" ..
    then obtain b where b: "get_prototype prototype prot0 = Inr b"
      unfolding resolves_def by blast
    have upd: "dict_update x (PDict x) = Inr (fold (\<lambda>(k, v). dict_setitem k v) x x)" for x
      by (simp add: dict_update_def)
    from "3.IH"(2)[OF b upd] show ?thesis
    proof
      assume "\<exists>e. fails (inherit rest) e"
      then obtain e where e: "\<And>a. inherit rest a = Inl e" by (auto simp: fails_def)
      have "inherit (prototype # rest) a = Inl e" for a
      proof -
        obtain r where "get_prototype prototype a = Inr r"
          using M1 unfolding resolves_def by blast
        then show ?thesis by (simp add: upd e)
      qed
      then have "fails (inherit (prototype # rest)) e" by (simp add: fails_def)
      then show ?thesis by blast
    next
      assume "\<exists>M. resolves (inherit rest) M"
      then obtain M2 where M2: "resolves (inherit rest) M2" ..
      have "resolves (inherit (prototype # rest)) (M1 ++ M2)"
        unfolding resolves_def
      proof (intro conjI allI)
        from M1 M2 show "PStr ''prototype'' \<notin> dom (M1 ++ M2)" by (simp add: resolves_def)
      next
        fix a
        from M1 obtain r1 where r1: "get_prototype prototype a = Inr r1"
          "acc_ok a \<longrightarrow> acc_ok r1 \<and> map_of r1 = map_of a ++ M1"
          unfolding resolves_def by blast
        let ?r1 = "fold (\<lambda>(k, v). dict_setitem k v) r1 r1"
        from M2 obtain r2 where r2: "inherit rest ?r1 = Inr r2"
          "acc_ok ?r1 \<longrightarrow> acc_ok r2 \<and> map_of r2 = map_of ?r1 ++ M2"
          unfolding resolves_def by blast
        have res: "inherit (prototype # rest) a = Inr r2" by (simp add: r1(1) upd r2(1))
        have "acc_ok r2 \<and> map_of r2 = map_of a ++ (M1 ++ M2)" if ok: "acc_ok a"
        proof -
          from ok r1(2) have ok1: "acc_ok r1" and m1: "map_of r1 = map_of a ++ M1" by simp_all
          from ok1 have "acc_ok ?r1"
            by (simp add: acc_ok_def distinct_fold_setitem keys_fold_setitem)
          moreover from ok1 have "map_of ?r1 = map_of r1"
            by (simp add: acc_ok_def self_update)
          ultimately show ?thesis using r2(2) m1 by simp
        qed
        with res show "\<exists>r. inherit (prototype # rest) a = Inr r \<and>
            (acc_ok a \<longrightarrow> acc_ok r \<and> map_of r = map_of a ++ (M1 ++ M2))"
          by blast
      qed
      then show ?thesis by blast
    qed
  qed
qed

lemma acc_ok_Nil: "acc_ok []"
  by (simp add: acc_ok_def dict_keys_def)

lemma get_prototype_error_indep:
  assumes "get_prototype dic a = Inl e"
  shows "get_prototype dic b = Inl e"
  using get_prototype_inherit_uniform(1)[of dic] assms
  by (auto simp: fails_def resolves_def) (metis Inl_Inr_False)

lemma inherit_error_indep:
  assumes "inherit ps a = Inl e"
  shows "inherit ps b = Inl e"
  using get_prototype_inherit_uniform(2)[of ps] assms
  by (auto simp: fails_def resolves_def) (metis Inl_Inr_False)

lemma get_prototype_from_empty:
  assumes "get_prototype dic [] = Inr r0" and "acc_ok a"
  shows "\<exists>r. get_prototype dic a = Inr r \<and> acc_ok r \<and> map_of r = map_of a ++ map_of r0"
proof -
  from get_prototype_inherit_uniform(1)[of dic] assms(1)
  obtain M where M: "resolves (get_prototype dic) M" by (auto simp: fails_def)
  with assms(1) acc_ok_Nil have "map_of r0 = M" unfolding resolves_def by fastforce
  with M assms(2) show ?thesis unfolding resolves_def by blast
qed

lemma get_prototype_acc_ok:
  assumes "get_prototype dic a = Inr r" and "acc_ok a"
  shows "acc_ok r"
proof -
  from get_prototype_inherit_uniform(1)[of dic] assms(1)
  obtain M where "resolves (get_prototype dic) M" by (auto simp: fails_def)
  then obtain r' where "get_prototype dic a = Inr r'" "acc_ok a \<longrightarrow> acc_ok r'"
    unfolding resolves_def by blast
  with assms show ?thesis by simp
qed

lemma get_prototype_success_indep:
  assumes "get_prototype dic a = Inr r"
  shows "\<exists>r0. get_prototype dic [] = Inr r0"
  using get_prototype_error_indep[of dic "[]" _ a] assms
  by (cases "get_prototype dic []") auto

lemma inherit_success_indep:
  assumes "inherit ps a = Inr r"
  shows "\<exists>r0. inherit ps b = Inr r0"
  using inherit_error_indep[of ps b _ a] assms
  by (cases "inherit ps b") auto

lemma inherit_fold:
  assumes "acc_ok a" and "inherit ps a = Inr r"
  shows "(\<forall>p\<in>set ps. \<exists>m. get_prototype p [] = Inr m) \<and> acc_ok r \<and>
         map_of r = foldl (\<lambda>M p. M ++ resolved_map p) (map_of a) ps"
  using assms
proof (induction ps arbitrary: a)
  case Nil
  then show ?case by simp
next
  case (Cons p ps)
  from Cons.prems(2) obtain b where b: "get_prototype p a = Inr b"
    by (auto split: sum.splits)
  from get_prototype_success_indep[OF b] obtain m where m: "get_prototype p [] = Inr m" ..
  from get_prototype_from_empty[OF m Cons.prems(1)] b
  have okb: "acc_ok b" and mapb: "map_of b = map_of a ++ map_of m" by auto
  let ?b = "fold (\<lambda>(k, v). dict_setitem k v) b b"
  have upd: "dict_update b (PDict b) = Inr ?b" by (simp add: dict_update_def)
  from okb have ok': "acc_ok ?b"
    by (simp add: acc_ok_def distinct_fold_setitem keys_fold_setitem)
  from okb have map': "map_of ?b = map_of b" by (simp add: acc_ok_def self_update)
  from Cons.prems(2) b upd have "inherit ps ?b = Inr r" by simp
  from Cons.IH[OF ok' this] m mapb map' show ?case
    by (simp add: resolved_map_def)
qed

lemma inherit_succeeds:
  assumes "\<forall>p\<in>set ps. \<exists>m. get_prototype p [] = Inr m"
  shows "\<exists>r. inherit ps a = Inr r"
  using assms
proof (induction ps arbitrary: a)
  case Nil
  show ?case by simp
next
  case (Cons p ps)
  then obtain m where "get_prototype p [] = Inr m" by auto
  then obtain b where b: "get_prototype p a = Inr b"
    using get_prototype_error_indep[of p a _ "[]"] by (cases "get_prototype p a") auto
  from Cons show ?case by (simp add: b dict_update_def)
qed

lemma foldl_rightmost:
  assumes "i < length ps" and "resolved_map (ps ! i) f = Some v"
    and "\<forall>j. i < j \<and> j < length ps \<longrightarrow> resolved_map (ps ! j) f = None"
  shows "foldl (\<lambda>M p. M ++ resolved_map p) M0 ps f = Some v"
  using assms
proof (induction ps rule: rev_induct)
  case Nil
  then show ?case by simp
next
  case (snoc p ps)
  show ?case
  proof (cases "i = length ps")
    case True
    with snoc.prems(2) show ?thesis by (simp add: map_add_def)
  next
    case False
    with snoc.prems(1) have i: "i < length ps" by simp
    from snoc.prems(3)[rule_format, of "length ps"] i
    have none: "resolved_map p f = None" by simp
    have "foldl (\<lambda>M p. M ++ resolved_map p) M0 ps f = Some v"
    proof (rule snoc.IH[OF i])
      from snoc.prems(2) i show "resolved_map (ps ! i) f = Some v" by (simp add: nth_append)
      show "\<forall>j. i < j \<and> j < length ps \<longrightarrow> resolved_map (ps ! j) f = None"
      proof (intro allI impI)
        fix j assume j: "i < j \<and> j < length ps"
        with snoc.prems(3)[rule_format, of j] show "resolved_map (ps ! j) f = None"
          by (simp add: nth_append)
      qed
    qed
    with none show ?thesis by (simp add: map_add_def)
  qed
qed

lemma dom_foldl_resolved:
  "dom (foldl (\<lambda>M p. M ++ resolved_map p) M0 ps) = dom M0 \<union> (\<Union>p\<in>set ps. dom (resolved_map p))"
  by (induction ps arbitrary: M0) auto

lemma get_prototype_PDict:
  "get_prototype (PDict kvs) a =
     (case (case map_of kvs (PStr ''prototype'') of
              None \<Rightarrow> Inr a
            | Some prototypes \<Rightarrow>
                (case parent_list prototypes of Inl e \<Rightarrow> Inl e | Inr ps \<Rightarrow> inherit ps a)) of
        Inl e \<Rightarrow> Inl e
      | Inr prot1 \<Rightarrow>
          Inr (dict_remove (PStr ''prototype'') (fold (\<lambda>(k, v). dict_setitem k v) kvs prot1)))"
proof (cases "map_of kvs (PStr ''prototype'')")
  case None
  then have "\<not> dict_has kvs (PStr ''prototype'')"
    by (simp add: dict_has_def dom_map_of_keys[symmetric] domIff)
  then show ?thesis
    by (subst get_prototype_unfold) (simp add: None dict_update_def)
next
  case (Some p)
  then have "dict_has kvs (PStr ''prototype'')"
    by (auto simp: dict_has_def dom_map_of_keys[symmetric])
  then show ?thesis
    by (subst get_prototype_unfold) (simp add: Some dict_update_def split: sum.splits)
qed

lemma parents_PDict:
  "parents (PDict kvs) =
     (case map_of kvs (PStr ''prototype'') of
        None \<Rightarrow> []
      | Some prototypes \<Rightarrow> (case parent_list prototypes of Inl e \<Rightarrow> [] | Inr ps \<Rightarrow> ps))"
proof (cases "map_of kvs (PStr ''prototype'')")
  case None
  then have "\<not> dict_has kvs (PStr ''prototype'')"
    by (simp add: dict_has_def dom_map_of_keys[symmetric] domIff)
  then show ?thesis by (simp add: parents_def None)
next
  case (Some p)
  then have "dict_has kvs (PStr ''prototype'')"
    by (auto simp: dict_has_def dom_map_of_keys[symmetric])
  then show ?thesis by (simp add: parents_def Some)
qed

text \<open>The resolved mapping of a dictionary, as a map, in one equation.\<close>

lemma resolved_PDict:
  assumes "get_prototype (PDict kvs) [] = Inr r"
  shows "(\<forall>p\<in>set (parents (PDict kvs)). \<exists>m. get_prototype p [] = Inr m) \<and> acc_ok r \<and>
         map_of r = (foldl (\<lambda>M p. M ++ resolved_map p) Map.empty (parents (PDict kvs))
                      ++ map_of (rev kvs))(PStr ''prototype'' := None)"
proof (cases "map_of kvs (PStr ''prototype'')")
  case None
  with assms have r: "r = dict_remove (PStr ''prototype'') (fold (\<lambda>(k, v). dict_setitem k v) kvs [])"
    by (simp add: get_prototype_PDict)
  have "acc_ok r" using get_prototype_acc_ok[OF assms acc_ok_Nil] .
  then show ?thesis
    by (simp add: r parents_PDict None map_of_dict_remove map_of_fold_setitem)
next
  case (Some p)
  with assms obtain ps a1 where ps: "parent_list p = Inr ps" and a1: "inherit ps [] = Inr a1"
    and r: "r = dict_remove (PStr ''prototype'') (fold (\<lambda>(k, v). dict_setitem k v) kvs a1)"
    by (auto simp: get_prototype_PDict split: sum.splits)
  from inherit_fold[OF acc_ok_Nil a1]
  have all: "\<forall>p\<in>set ps. \<exists>m. get_prototype p [] = Inr m"
    and m1: "map_of a1 = foldl (\<lambda>M p. M ++ resolved_map p) Map.empty ps" by simp_all
  have "acc_ok r" using get_prototype_acc_ok[OF assms acc_ok_Nil] .
  with all m1 show ?thesis
    by (simp add: r parents_PDict Some ps map_of_dict_remove map_of_fold_setitem)
qed

lemma proto_notin_resolved: "PStr ''prototype'' \<notin> dom (resolved_map p)"
proof (cases "get_prototype p []")
  case (Inl e)
  then show ?thesis by (simp add: resolved_map_def)
next
  case (Inr m)
  from get_prototype_acc_ok[OF Inr acc_ok_Nil] show ?thesis
    by (simp add: resolved_map_def Inr acc_ok_def dom_map_of_keys)
qed

lemma resolved_keys:
  assumes "get_prototype (PDict kvs) [] = Inr r"
  shows "set (dict_keys r) = (set (dict_keys kvs) - {PStr ''prototype''}) \<union>
           (\<Union>p\<in>set (parents (PDict kvs)). dom (resolved_map p))"
proof -
  from resolved_PDict[OF assms]
  have "map_of r = (foldl (\<lambda>M p. M ++ resolved_map p) Map.empty (parents (PDict kvs))
                      ++ map_of (rev kvs))(PStr ''prototype'' := None)" by simp
  then have "dom (map_of r) = (dom (foldl (\<lambda>M p. M ++ resolved_map p) Map.empty (parents (PDict kvs)))
       \<union> dom (map_of (rev kvs))) - {PStr ''prototype''}" by auto
  moreover have "dom (map_of (rev kvs)) = set (dict_keys kvs)"
    by (simp add: dom_map_of_conv_image_fst dict_keys_def)
  ultimately show ?thesis
    using proto_notin_resolved by (auto simp: dom_map_of_keys dom_foldl_resolved)
qed

lemma parents_only_of_dict: "p \<in> set (parents dic) \<Longrightarrow> isinstance_dict dic"
  by (cases dic) (auto simp: parents_def split: sum.splits bool.splits)

lemma ancestors_mem:
  "a \<in> set (ancestors dic) \<longleftrightarrow> (\<exists>p\<in>set (parents dic). a = p \<or> a \<in> set (ancestors p))"
  by (subst ancestors.simps) auto

lemma ancestor_dom_subset:
  "get_prototype dic [] = Inr r \<Longrightarrow> a \<in> set (ancestors dic) \<Longrightarrow>
     (\<exists>m. get_prototype a [] = Inr m) \<and> dom (resolved_map a) \<subseteq> dom (resolved_map dic)"
proof (induction dic arbitrary: r a rule: ancestors.induct)
  case (1 dic)
  from "1.prems"(2) obtain p where p: "p \<in> set (parents dic)" and a: "a = p \<or> a \<in> set (ancestors p)"
    by (auto simp: ancestors_mem[of a dic])
  from parents_only_of_dict[OF p] obtain kvs where dic: "dic = PDict kvs" by (cases dic) auto
  from resolved_PDict[OF "1.prems"(1)[unfolded dic]] p obtain m where m: "get_prototype p [] = Inr m"
    by (auto simp: dic)
  have "dom (resolved_map p) \<subseteq> dom (resolved_map dic)"
    using resolved_keys[OF "1.prems"(1)[unfolded dic]] p "1.prems"(1)
    by (auto simp: resolved_map_def dic dom_map_of_keys)
  with a m "1.IH"[OF p m] show ?case by blast
qed

text \<open>
  C3. The mapping the resolver returns for a dictionary holds no key \<^verbatim>\<open>prototype\<close>, holds
  each key once, and its keys are the dictionary's own keys other than \<^verbatim>\<open>prototype\<close>
  together with the keys of the resolved mappings of all its ancestors, each of which
  resolves. Specifications are finite nested values, so the parent graph is acyclic.
\<close>

theorem resolved_mapping_invariant:
  assumes "get_prototype (PDict kvs) [] = Inr r"
  shows "PStr ''prototype'' \<notin> set (dict_keys r) \<and> distinct (dict_keys r) \<and>
         set (dict_keys r) =
           (set (dict_keys kvs) - {PStr ''prototype''}) \<union>
           (\<Union>a\<in>set (ancestors (PDict kvs)). dom (resolved_map a)) \<and>
         (\<forall>a\<in>set (ancestors (PDict kvs)). \<exists>m. get_prototype a [] = Inr m)"
proof -
  have ok: "acc_ok r" using get_prototype_acc_ok[OF assms acc_ok_Nil] .
  have anc: "(\<exists>m. get_prototype a [] = Inr m) \<and> dom (resolved_map a) \<subseteq> dom (resolved_map (PDict kvs))"
    if "a \<in> set (ancestors (PDict kvs))" for a
    using ancestor_dom_subset[OF assms that] .
  have "(\<Union>p\<in>set (parents (PDict kvs)). dom (resolved_map p))
      = (\<Union>a\<in>set (ancestors (PDict kvs)). dom (resolved_map a))" (is "?L = ?R")
  proof
    have "set (parents (PDict kvs)) \<subseteq> set (ancestors (PDict kvs))"
      by (auto simp: ancestors_mem[of _ "PDict kvs"])
    then show "?L \<subseteq> ?R" by blast
    have "dom (resolved_map (PDict kvs)) = set (dict_keys r)"
      by (simp add: resolved_map_def assms dom_map_of_keys)
    show "?R \<subseteq> ?L"
    proof
      fix x assume "x \<in> ?R"
      then obtain a where a: "a \<in> set (ancestors (PDict kvs))" "x \<in> dom (resolved_map a)" by blast
      then obtain p where p: "p \<in> set (parents (PDict kvs))" "a = p \<or> a \<in> set (ancestors p)"
        by (auto simp: ancestors_mem[of a "PDict kvs"])
      from resolved_PDict[OF assms] p(1) obtain m where m: "get_prototype p [] = Inr m" by auto
      from p(2) a(2) ancestor_dom_subset[OF m] have "x \<in> dom (resolved_map p)" by blast
      with p(1) show "x \<in> ?L" by blast
    qed
  qed
  with resolved_keys[OF assms] anc ok show ?thesis
    by (simp add: acc_ok_def)
qed

lemma resolve_GOBLIN_ARCHWIZARD:
  "get_prototype (PDict GOBLIN_ARCHWIZARD_items) [] = Inr GOBLIN_ARCHWIZARD_resolved"
  by code_simp

lemma parents_GOBLIN_ARCHWIZARD:
  "parents (PDict GOBLIN_ARCHWIZARD_items) = [GOBLIN_WIZARD, ARCHWIZARD]"
  by code_simp

theorem resolved_mapping_invariant_witness:
  "get_prototype (PDict GOBLIN_ARCHWIZARD_items) [] = Inr GOBLIN_ARCHWIZARD_resolved \<and>
   PStr ''prototype'' \<notin> set (dict_keys GOBLIN_ARCHWIZARD_resolved) \<and>
   distinct (dict_keys GOBLIN_ARCHWIZARD_resolved) \<and>
   set (dict_keys GOBLIN_ARCHWIZARD_resolved) =
     (set (dict_keys GOBLIN_ARCHWIZARD_items) - {PStr ''prototype''}) \<union>
     (\<Union>a\<in>set (ancestors (PDict GOBLIN_ARCHWIZARD_items)). dom (resolved_map a))"
proof -
  note T = resolved_mapping_invariant[OF resolve_GOBLIN_ARCHWIZARD]
  from T resolve_GOBLIN_ARCHWIZARD show ?thesis by blast
qed

text \<open>
  C2. Every parent of a resolved dictionary resolves on its own; a field the dictionary
  defines itself keeps the dictionary's value whatever the parents define; a field it does
  not define takes the value of the rightmost parent whose resolved mapping defines it.
\<close>

theorem rightmost_parent_wins_and_self_overrides:
  assumes "get_prototype (PDict kvs) [] = Inr r"
    and "distinct (dict_keys kvs)"
  shows "(\<forall>p\<in>set (parents (PDict kvs)). \<exists>m. get_prototype p [] = Inr m) \<and>
         (\<forall>f v. f \<noteq> PStr ''prototype'' \<and> map_of kvs f = Some v \<longrightarrow> map_of r f = Some v) \<and>
         (\<forall>i f v. i < length (parents (PDict kvs)) \<and> f \<notin> set (dict_keys kvs) \<and>
              resolved_map (parents (PDict kvs) ! i) f = Some v \<and>
              (\<forall>j. i < j \<and> j < length (parents (PDict kvs)) \<longrightarrow>
                     f \<notin> dom (resolved_map (parents (PDict kvs) ! j)))
            \<longrightarrow> map_of r f = Some v)"
proof -
  let ?ps = "parents (PDict kvs)"
  let ?F = "foldl (\<lambda>M p. M ++ resolved_map p) Map.empty ?ps"
  from resolved_PDict[OF assms(1)]
  have all: "\<forall>p\<in>set ?ps. \<exists>m. get_prototype p [] = Inr m"
    and r: "map_of r = (?F ++ map_of (rev kvs))(PStr ''prototype'' := None)" by simp_all
  have own: "map_of (rev kvs) = map_of kvs" by (rule map_of_rev_distinct[OF assms(2)])
  have self: "map_of r f = Some v" if "f \<noteq> PStr ''prototype'' \<and> map_of kvs f = Some v" for f v
    using that by (simp add: r own map_add_def)
  have inh: "map_of r f = Some v"
    if h: "i < length ?ps \<and> f \<notin> set (dict_keys kvs) \<and> resolved_map (?ps ! i) f = Some v \<and>
        (\<forall>j. i < j \<and> j < length ?ps \<longrightarrow> f \<notin> dom (resolved_map (?ps ! j)))" for i f v
  proof -
    from h have "?F f = Some v"
      by (intro foldl_rightmost[of i]) (auto simp: domIff)
    moreover from h have "map_of kvs f = None"
      by (simp add: dom_map_of_keys[symmetric] domIff)
    moreover have "f \<noteq> PStr ''prototype''"
      using h proto_notin_resolved[of "?ps ! i"] by auto
    ultimately show ?thesis by (simp add: r own map_add_def)
  qed
  from all self inh show ?thesis by blast
qed

theorem rightmost_parent_wins_and_self_overrides_witness:
  "get_prototype (PDict GOBLIN_ARCHWIZARD_items) [] = Inr GOBLIN_ARCHWIZARD_resolved \<and>
   distinct (dict_keys GOBLIN_ARCHWIZARD_items) \<and>
   resolved_map GOBLIN_WIZARD (PStr ''key'') = Some (PStr ''goblin wizard'') \<and>
   map_of GOBLIN_ARCHWIZARD_resolved (PStr ''key'') = Some (PStr ''goblin archwizard'') \<and>
   resolved_map GOBLIN_WIZARD (PStr ''attacks'') = Some (PList [PStr ''fists'']) \<and>
   resolved_map ARCHWIZARD (PStr ''attacks'') = Some (PList [PStr ''archwizard staff'']) \<and>
   map_of GOBLIN_ARCHWIZARD_resolved (PStr ''attacks'') = Some (PList [PStr ''archwizard staff''])"
proof -
  have d: "distinct (dict_keys GOBLIN_ARCHWIZARD_items)" by code_simp
  note T = rightmost_parent_wins_and_self_overrides[OF resolve_GOBLIN_ARCHWIZARD d]
  have k1: "resolved_map GOBLIN_WIZARD (PStr ''key'') = Some (PStr ''goblin wizard'')"
    by code_simp
  have k2: "map_of GOBLIN_ARCHWIZARD_items (PStr ''key'') = Some (PStr ''goblin archwizard'')"
    by code_simp
  have a1: "resolved_map GOBLIN_WIZARD (PStr ''attacks'') = Some (PList [PStr ''fists''])"
    by code_simp
  have a2: "resolved_map ARCHWIZARD (PStr ''attacks'') = Some (PList [PStr ''archwizard staff''])"
    by code_simp
  have a3: "PStr ''attacks'' \<notin> set (dict_keys GOBLIN_ARCHWIZARD_items)" by code_simp
  from T k2 have key: "map_of GOBLIN_ARCHWIZARD_resolved (PStr ''key'') = Some (PStr ''goblin archwizard'')"
    by simp
  from T have "1 < length (parents (PDict GOBLIN_ARCHWIZARD_items)) \<and>
      PStr ''attacks'' \<notin> set (dict_keys GOBLIN_ARCHWIZARD_items) \<and>
      resolved_map (parents (PDict GOBLIN_ARCHWIZARD_items) ! 1) (PStr ''attacks'') =
        Some (PList [PStr ''archwizard staff'']) \<and>
      (\<forall>j. 1 < j \<and> j < length (parents (PDict GOBLIN_ARCHWIZARD_items)) \<longrightarrow>
         PStr ''attacks'' \<notin> dom (resolved_map (parents (PDict GOBLIN_ARCHWIZARD_items) ! j)))
      \<longrightarrow> map_of GOBLIN_ARCHWIZARD_resolved (PStr ''attacks'') = Some (PList [PStr ''archwizard staff''])"
    by blast
  moreover have "1 < length (parents (PDict GOBLIN_ARCHWIZARD_items))"
    by (simp add: parents_GOBLIN_ARCHWIZARD)
  moreover have "resolved_map (parents (PDict GOBLIN_ARCHWIZARD_items) ! 1) (PStr ''attacks'') =
        Some (PList [PStr ''archwizard staff''])"
    by (simp add: parents_GOBLIN_ARCHWIZARD a2)
  moreover have "\<forall>j. 1 < j \<and> j < length (parents (PDict GOBLIN_ARCHWIZARD_items)) \<longrightarrow>
         PStr ''attacks'' \<notin> dom (resolved_map (parents (PDict GOBLIN_ARCHWIZARD_items) ! j))"
    by (auto simp: parents_GOBLIN_ARCHWIZARD)
  ultimately have att: "map_of GOBLIN_ARCHWIZARD_resolved (PStr ''attacks'') = Some (PList [PStr ''archwizard staff''])"
    using a3 by blast
  from resolve_GOBLIN_ARCHWIZARD d k1 key a1 a2 att show ?thesis by simp
qed

lemma well_formed_parents:
  assumes "well_formed dic" and "p \<in> set (parents dic)"
  shows "well_formed p"
proof -
  from parents_only_of_dict[OF assms(2)] obtain kvs where dic: "dic = PDict kvs"
    by (cases dic) auto
  have "\<exists>prototypes. py_getitem dic ''prototype'' = Inr prototypes"
  proof (cases "py_getitem dic ''prototype''")
    case (Inl e)
    with assms(2) show ?thesis by (simp add: parents_def split: sum.splits bool.splits)
  next
    case (Inr v)
    then show ?thesis by blast
  qed
  then obtain prototypes where "py_getitem dic ''prototype'' = Inr prototypes" ..
  with assms(1) have "list_all well_formed (parents dic)"
    by (subst (asm) well_formed.simps) simp
  with assms(2) show ?thesis by (simp add: list_all_iff)
qed

lemma well_formed_parent_list:
  assumes "well_formed (PDict kvs)" and "map_of kvs (PStr ''prototype'') = Some prototypes"
  shows "\<exists>ps. parent_list prototypes = Inr ps"
proof -
  from assms have "isinstance_dict prototypes \<or> is_sequence prototypes"
    by (subst (asm) well_formed.simps) simp
  then show ?thesis by (cases prototypes) (auto simp: parent_list_def)
qed

text \<open>The only errors of the resolver are the type error and the value error.\<close>

lemma merge_from_seq2_errors:
  "merge_from_seq2 d items = Inl e \<Longrightarrow> e = TypeError \<or> e = ValueError"
proof (induction items arbitrary: d)
  case Nil
  then show ?case by simp
next
  case (Cons item items)
  then show ?case
    by (auto split: sum.splits list.splits if_splits)
qed

lemma dict_update_errors:
  assumes "dict_update d other = Inl e"
  shows "e = TypeError \<or> e = ValueError"
proof (cases "py_iter other")
  case (Inl e')
  then have "e' = TypeError" by (cases other) auto
  with assms Inl show ?thesis by (cases other) (auto simp: dict_update_def)
next
  case (Inr items)
  with assms have "isinstance_dict other \<or> merge_from_seq2 d items = Inl e"
    by (cases other) (auto simp: dict_update_def)
  with assms show ?thesis
    using merge_from_seq2_errors[of d items e]
    by (cases other) (auto simp: dict_update_def)
qed

lemma py_getitem_after_contains:
  assumes "py_contains ''prototype'' dic = Inr True" and "py_getitem dic ''prototype'' = Inl e"
  shows "e = TypeError"
proof (cases dic)
  case (PDict kvs)
  with assms(1) have "PStr ''prototype'' \<in> fst ` set kvs" by (simp add: dict_has_def dict_keys_def)
  then have "map_of kvs (PStr ''prototype'') \<noteq> None" by (simp add: map_of_eq_None_iff)
  with assms(2) PDict show ?thesis by (auto split: option.splits)
qed (use assms in auto)

lemma resolver_errors:
  "get_prototype dic prot = Inl e \<Longrightarrow> e = TypeError \<or> e = ValueError"
  "inherit ps prot = Inl e \<Longrightarrow> e = TypeError \<or> e = ValueError"
proof (induction dic prot and ps prot arbitrary: e and e rule: get_prototype_inherit.induct)
  case (1 dic prot)
  show ?case
  proof (cases "py_contains ''prototype'' dic")
    case (Inl e')
    then have "e' = TypeError" by (cases dic) auto
    with "1.prems" Inl show ?thesis by (subst (asm) get_prototype.simps) simp
  next
    case has: (Inr has)
    have step: "e = TypeError \<or> e = ValueError"
      if "(case dict_update prot1 dic of Inl e \<Rightarrow> Inl e
           | Inr prot2 \<Rightarrow> Inr (dict_remove (PStr ''prototype'') prot2)) = Inl e" for prot1
      using that dict_update_errors[of prot1 dic e] by (auto split: sum.splits)
    show ?thesis
    proof (cases has)
      case False
      with "1.prems" has
      have "(case dict_update prot dic of Inl e \<Rightarrow> Inl e
             | Inr prot2 \<Rightarrow> Inr (dict_remove (PStr ''prototype'') prot2)) = Inl e"
        by (subst (asm) get_prototype.simps) simp
      then show ?thesis by (rule step)
    next
      case True
      show ?thesis
      proof (cases "py_getitem dic ''prototype''")
        case (Inl e')
        with has True have "e' = TypeError" by (simp add: py_getitem_after_contains)
        with "1.prems" has True Inl show ?thesis by (subst (asm) get_prototype.simps) simp
      next
        case p: (Inr prototypes)
        show ?thesis
        proof (cases "py_iter (if isinstance_dict prototypes then PTuple [prototypes] else prototypes)")
          case (Inl e')
          then have "e' = TypeError" by (cases prototypes) (auto split: if_splits)
          with "1.prems" has True p Inl show ?thesis
            by (subst (asm) get_prototype.simps) simp
        next
          case (Inr ps)
          show ?thesis
          proof (cases "inherit ps prot")
            case (Inl e')
            with "1.IH"[OF has True p Inr] have "e' = TypeError \<or> e' = ValueError" by simp
            with "1.prems" has True p Inr Inl show ?thesis
              by (subst (asm) get_prototype.simps) simp
          next
            case ok: (Inr prot1)
            with "1.prems" has True p Inr
            have "(case dict_update prot1 dic of Inl e \<Rightarrow> Inl e
                   | Inr prot2 \<Rightarrow> Inr (dict_remove (PStr ''prototype'') prot2)) = Inl e"
              by (subst (asm) get_prototype.simps) simp
            then show ?thesis by (rule step)
          qed
        qed
      qed
    qed
  qed
next
  case (2 prot)
  then show ?case by simp
next
  case (3 prototype rest prot)
  show ?case
  proof (cases "get_prototype prototype prot")
    case (Inl e')
    with "3.IH"(1) have "e' = TypeError \<or> e' = ValueError" by simp
    with "3.prems" Inl show ?thesis by simp
  next
    case (Inr new_prot)
    have upd: "dict_update new_prot (PDict new_prot) =
        Inr (fold (\<lambda>(k, v). dict_setitem k v) new_prot new_prot)"
      by (simp add: dict_update_def)
    from "3.prems" Inr upd
    have "inherit rest (fold (\<lambda>(k, v). dict_setitem k v) new_prot new_prot) = Inl e" by simp
    with "3.IH"(2)[OF Inr upd] show ?thesis by simp
  qed
qed

lemma well_formed_resolves:
  assumes "well_formed dic"
  shows "\<exists>r. get_prototype dic prot = Inr r"
  using assms
proof (induction dic arbitrary: prot rule: ancestors.induct)
  case (1 dic)
  from "1.prems" have "isinstance_dict dic" by (subst (asm) well_formed.simps) simp
  then obtain kvs where dic: "dic = PDict kvs" by (cases dic) auto
  show ?case
  proof (cases "map_of kvs (PStr ''prototype'')")
    case None
    then show ?thesis by (simp add: dic get_prototype_PDict)
  next
    case (Some prototypes)
    from well_formed_parent_list[OF "1.prems"[unfolded dic] Some]
    obtain ps where ps: "parent_list prototypes = Inr ps" ..
    then have par: "parents dic = ps" by (simp add: dic parents_PDict Some)
    have "\<forall>p\<in>set ps. \<exists>m. get_prototype p [] = Inr m"
      using "1.IH" well_formed_parents[OF "1.prems"] par by blast
    from inherit_succeeds[OF this] obtain a1 where "inherit ps prot = Inr a1" by blast
    then show ?thesis by (simp add: dic get_prototype_PDict Some ps)
  qed
qed

text \<open>
  C9. Specifications are finite nested values, which is what an acyclic chain of parent
  references is; the resolver is a total function on them (its termination is proved
  above). On every specification it returns a mapping or fails with a type error or a
  value error, the errors of a malformed specification, and on every well-formed
  specification it returns a mapping, whatever the accumulator it starts from.
\<close>

theorem well_formed_resolution_returns:
  "((\<exists>r. get_prototype dic prot = Inr r) \<or> get_prototype dic prot = Inl TypeError \<or>
      get_prototype dic prot = Inl ValueError) \<and>
   (well_formed dic \<longrightarrow> (\<exists>r. get_prototype dic prot = Inr r))"
proof
  show "(\<exists>r. get_prototype dic prot = Inr r) \<or> get_prototype dic prot = Inl TypeError \<or>
      get_prototype dic prot = Inl ValueError"
  proof (cases "get_prototype dic prot")
    case (Inl e)
    with resolver_errors(1)[OF Inl] show ?thesis by auto
  next
    case (Inr r)
    then show ?thesis by blast
  qed
  show "well_formed dic \<longrightarrow> (\<exists>r. get_prototype dic prot = Inr r)"
    using well_formed_resolves by blast
qed

theorem well_formed_resolution_returns_witness:
  "well_formed GOBLIN_ARCHWIZARD \<and> (\<exists>r. get_prototype GOBLIN_ARCHWIZARD [] = Inr r)"
proof -
  have w: "well_formed GOBLIN_ARCHWIZARD" by code_simp
  from well_formed_resolution_returns[of GOBLIN_ARCHWIZARD "[]"] w show ?thesis by blast
qed





section \<open>Properties of the spawner and of batch creation\<close>

text \<open>
  C1. The field \<^verbatim>\<open>ndb_foo\<close> of the specification \<^verbatim>\<open>{"ndb_foo": 1}\<close> becomes the transient
  attribute \<^verbatim>\<open>foo\<close> and the generic attribute \<^verbatim>\<open>ndb_foo\<close> as well: the test
  \<^verbatim>\<open>key in nattributes\<close> looks the unstripped name up among the stripped ones.
\<close>

theorem ndb_field_is_also_generic_attribute:
  "fst (spawn_loop world0 [PDict [(PStr ''ndb_foo'', PInt 1)]] [] []) =
     Inr [\<lparr>create = \<lparr>db_key = PStr ''Spawned Object 000007'', db_location = PNone,
                      db_home = PStr ''#2'', db_destination = PNone,
                      db_typeclass_path = PStr ''src.objects.objects.Object''\<rparr>,
           permissions = PStr [], locks = PStr [], aliases = PStr [],
           nattributes = [(PStr ''foo'', PInt 1)],
           attributes = [(PStr ''ndb_foo'', PInt 1)]\<rparr>]"
  by code_simp

lemma follows_ret: "follows w (ret x) [] x"
  by (simp add: follows_def ret_def)

lemma follows_store_call: "follows w (store_call w ev) [ev] ()"
  unfolding follows_def
proof
  fix tr
  show "store_call w ev tr = (Inr (), tr @ [ev]) \<or>
        (\<exists>e pre ev'. store_call w ev tr = (Inl e, tr @ pre @ [ev']) \<and> prefix (pre @ [ev']) [ev] \<and>
            raises w (tr @ pre) ev' = Some e)"
  proof (cases "raises w tr ev")
    case None
    then show ?thesis by (simp add: store_call_def)
  next
    case (Some e)
    then have "store_call w ev tr = (Inl e, tr @ [] @ [ev]) \<and> prefix ([] @ [ev]) [ev] \<and>
        raises w (tr @ []) ev = Some e" by (simp add: store_call_def)
    then show ?thesis by blast
  qed
qed

lemma follows_bind:
  assumes m: "follows w m evs1 x" and f: "follows w (f x) evs2 y"
  shows "follows w (bind m f) (evs1 @ evs2) y"
  unfolding follows_def
proof
  fix tr
  from m have "m tr = (Inr x, tr @ evs1) \<or>
      (\<exists>e pre ev. m tr = (Inl e, tr @ pre @ [ev]) \<and> prefix (pre @ [ev]) evs1 \<and>
          raises w (tr @ pre) ev = Some e)"
    unfolding follows_def by blast
  then show "bind m f tr = (Inr y, tr @ evs1 @ evs2) \<or>
        (\<exists>e pre ev. bind m f tr = (Inl e, tr @ pre @ [ev]) \<and> prefix (pre @ [ev]) (evs1 @ evs2) \<and>
            raises w (tr @ pre) ev = Some e)"
  proof
    assume ok: "m tr = (Inr x, tr @ evs1)"
    from f have "f x (tr @ evs1) = (Inr y, (tr @ evs1) @ evs2) \<or>
      (\<exists>e pre ev. f x (tr @ evs1) = (Inl e, (tr @ evs1) @ pre @ [ev]) \<and> prefix (pre @ [ev]) evs2 \<and>
          raises w ((tr @ evs1) @ pre) ev = Some e)"
      unfolding follows_def by blast
    then show ?thesis
    proof
      assume "f x (tr @ evs1) = (Inr y, (tr @ evs1) @ evs2)"
      with ok show ?thesis by (simp add: bind_def)
    next
      assume "\<exists>e pre ev. f x (tr @ evs1) = (Inl e, (tr @ evs1) @ pre @ [ev]) \<and>
          prefix (pre @ [ev]) evs2 \<and> raises w ((tr @ evs1) @ pre) ev = Some e"
      then obtain e pre ev where h: "f x (tr @ evs1) = (Inl e, (tr @ evs1) @ pre @ [ev])"
        "prefix (pre @ [ev]) evs2" "raises w ((tr @ evs1) @ pre) ev = Some e" by blast
      from ok h have "bind m f tr = (Inl e, tr @ (evs1 @ pre) @ [ev]) \<and>
          prefix ((evs1 @ pre) @ [ev]) (evs1 @ evs2) \<and> raises w (tr @ (evs1 @ pre)) ev = Some e"
        by (simp add: bind_def)
      then show ?thesis by blast
    qed
  next
    assume "\<exists>e pre ev. m tr = (Inl e, tr @ pre @ [ev]) \<and> prefix (pre @ [ev]) evs1 \<and>
          raises w (tr @ pre) ev = Some e"
    then obtain e pre ev where h: "m tr = (Inl e, tr @ pre @ [ev])" "prefix (pre @ [ev]) evs1"
      "raises w (tr @ pre) ev = Some e" by blast
    from h(2) have "prefix (pre @ [ev]) (evs1 @ evs2)" by (rule prefix_prefix)
    with h show ?thesis by (auto simp: bind_def)
  qed
qed

lemma follows_cong: "follows w m evs x \<Longrightarrow> evs = evs' \<Longrightarrow> follows w m evs' x"
  by simp

lemma follows_if:
  "follows w (if b then store_call w ev else ret ()) (if b then [ev] else []) ()"
  by (simp add: follows_ret follows_store_call)

lemma follows_nattributes_add_all:
  "follows w (nattributes_add_all w i items)
     (map (\<lambda>(key, value). NattributesAdd i key value) items) ()"
proof (induction items)
  case Nil
  show ?case by (simp add: follows_ret)
next
  case (Cons kv items)
  obtain k v where kv: "kv = (k, v)" by (cases kv)
  from follows_bind[OF follows_store_call Cons.IH, of "NattributesAdd i k v"]
  show ?case by (simp add: kv)
qed

lemma follows_setup_object: "follows w (setup_object w i objparam) (entity_events i objparam) ()"
proof -
  have n: "follows w (if nattributes objparam \<noteq> []
           then nattributes_add_all w i (nattributes objparam) else ret ())
           (map (\<lambda>(key, value). NattributesAdd i key value) (nattributes objparam)) ()"
    using follows_nattributes_add_all[of w i "nattributes objparam"]
    by (cases "nattributes objparam") (simp_all add: follows_ret)
  have "follows w (setup_object w i objparam)
     ([Typeclass i] @ [BasetypeSetup i] @ [AtObjectCreation i] @
      (if truthy (permissions objparam) then [PermissionsAdd i (permissions objparam)] else []) @
      (if truthy (locks objparam) then [LocksAdd i (locks objparam)] else []) @
      (if truthy (aliases objparam) then [AliasesAdd i (aliases objparam)] else []) @
      map (\<lambda>(key, value). NattributesAdd i key value) (nattributes objparam) @
      (if attributes objparam \<noteq> []
       then [AttributesBatchAdd i (dict_keys (attributes objparam)) (map snd (attributes objparam))]
       else []) @
      [BasetypePosthookSetup i]) ()"
    unfolding setup_object_def
    by (rule follows_bind follows_store_call follows_if n)+
  then show ?thesis by (simp add: entity_events_def attachment_events_def)
qed

lemma follows_construct_all:
  "follows w (construct_all w i objparams)
     (map (\<lambda>(j, objparam). Construct j (create objparam)) (enumerate i objparams))
     (constructed i objparams)"
proof (induction objparams arbitrary: i)
  case Nil
  show ?case by (simp add: follows_ret constructed_def)
next
  case (Cons objparam rest)
  have "follows w (construct_all w i (objparam # rest))
     ([Construct i (create objparam)] @
      map (\<lambda>(j, objparam). Construct j (create objparam)) (enumerate (Suc i) rest) @ [])
     (Entity i (create objparam) # constructed (Suc i) rest)"
    unfolding construct_all.simps
    by (rule follows_bind follows_store_call Cons.IH follows_ret)+
  then show ?case by (simp add: constructed_def)
qed

lemma follows_setup_loop:
  assumes "\<forall>(iobj, dbobj)\<in>set xs. iobj < length objparams"
  shows "follows w (setup_loop w objparams xs objs)
     (concat (map (\<lambda>(iobj, dbobj). entity_events (position dbobj) (objparams ! iobj)) xs))
     (objs @ map snd xs)"
  using assms
proof (induction xs arbitrary: objs)
  case Nil
  show ?case by (simp add: follows_ret)
next
  case (Cons x xs)
  obtain iobj dbobj where x: "x = (iobj, dbobj)" by (cases x)
  from Cons.prems have lt: "iobj < length objparams"
    and rest: "\<forall>(iobj, dbobj)\<in>set xs. iobj < length objparams" by (simp_all add: x)
  have "follows w (bind (setup_object w (position dbobj) (objparams ! iobj))
             (\<lambda>_. setup_loop w objparams xs (objs @ [dbobj])))
     (entity_events (position dbobj) (objparams ! iobj) @
      concat (map (\<lambda>(iobj, dbobj). entity_events (position dbobj) (objparams ! iobj)) xs))
     ((objs @ [dbobj]) @ map snd xs)"
    by (rule follows_bind follows_setup_object Cons.IH[OF rest])+
  with lt show ?case by (simp add: x)
qed

lemma enumerate_constructed:
  "map (\<lambda>(iobj, dbobj). entity_events (position dbobj) (objparams ! iobj))
       (enumerate 0 (constructed 0 objparams)) =
   map (\<lambda>(i, objparam). entity_events i objparam) (enumerate 0 objparams)"
  by (auto simp: list_eq_iff_nth_eq constructed_def nth_enumerate_eq)

lemma follows_batch_create_object:
  "follows w (batch_create_object w objparams) (batch_events objparams) (constructed 0 objparams)"
proof -
  have idx: "\<forall>(iobj, dbobj)\<in>set (enumerate 0 (constructed 0 objparams)). iobj < length objparams"
    by (auto simp: in_set_enumerate_eq constructed_def)
  have "follows w (batch_create_object w objparams)
     (map (\<lambda>(j, objparam). Construct j (create objparam)) (enumerate 0 objparams) @
      concat (map (\<lambda>(iobj, dbobj). entity_events (position dbobj) (objparams ! iobj))
                (enumerate 0 (constructed 0 objparams))))
     ([] @ map snd (enumerate 0 (constructed 0 objparams)))"
    unfolding batch_create_object_def
    by (rule follows_bind follows_construct_all follows_setup_loop[OF idx])+
  moreover have "map snd (enumerate 0 (constructed 0 objparams)) = constructed 0 objparams"
    by (simp add: enumerate_eq_zip)
  ultimately show ?thesis
    by (simp add: batch_events_def enumerate_constructed)
qed

text \<open>
  C6. A batch that returns has made exactly the calls of its schedule, in that order: for
  every entity the structural setup hook and the creation hook come before its
  attachments, the attachments come in the order permissions, locks, aliases, transient
  attributes, generic attributes (each of the first three only when its value is
  non-empty), and the post-hook setup comes after them. The entities returned are the
  constructed ones, in the order of the parameters.
\<close>

theorem batch_runs_schedule:
  assumes "batch_create_object w objparams tr = (Inr objs, tr')"
  shows "tr' = tr @ batch_events objparams \<and> objs = constructed 0 objparams"
  using follows_batch_create_object[of w objparams] assms
  unfolding follows_def by (metis Inl_Inr_False Pair_inject sum.inject(2))

lemma run_schedule_append:
  "run_schedule w (evs1 @ evs2) tr =
     (case run_schedule w evs1 tr of
        (None, tr1) \<Rightarrow> run_schedule w evs2 tr1
      | (Some e, tr1) \<Rightarrow> (Some e, tr1))"
  by (induction evs1 arbitrary: tr) (auto split: option.splits)

lemma exactly_ret: "exactly w (ret x) [] x"
  by (simp add: exactly_def ret_def)

lemma exactly_store_call: "exactly w (store_call w ev) [ev] ()"
  by (simp add: exactly_def store_call_def split: option.splits)

lemma exactly_bind:
  assumes m: "exactly w m evs1 x" and f: "exactly w (f x) evs2 y"
  shows "exactly w (bind m f) (evs1 @ evs2) y"
  unfolding exactly_def
proof
  fix tr
  obtain r1 tr1 where r1: "run_schedule w evs1 tr = (r1, tr1)"
    by (cases "run_schedule w evs1 tr")
  show "bind m f tr = (case run_schedule w (evs1 @ evs2) tr of
                     (None, tr') \<Rightarrow> (Inr y, tr')
                   | (Some e, tr') \<Rightarrow> (Inl e, tr'))"
  proof (cases r1)
    case None
    with m r1 have "m tr = (Inr x, tr1)" by (simp add: exactly_def)
    moreover from f have "f x tr1 = (case run_schedule w evs2 tr1 of
                     (None, tr') \<Rightarrow> (Inr y, tr')
                   | (Some e, tr') \<Rightarrow> (Inl e, tr'))" by (simp add: exactly_def)
    ultimately show ?thesis by (simp add: bind_def run_schedule_append r1 None)
  next
    case (Some e)
    with m r1 have "m tr = (Inl e, tr1)" by (simp add: exactly_def)
    then show ?thesis by (simp add: bind_def run_schedule_append r1 Some)
  qed
qed

lemma exactly_if:
  "exactly w (if b then store_call w ev else ret ()) (if b then [ev] else []) ()"
  by (simp add: exactly_ret exactly_store_call)

lemma exactly_nattributes_add_all:
  "exactly w (nattributes_add_all w i items)
     (map (\<lambda>(key, value). NattributesAdd i key value) items) ()"
proof (induction items)
  case Nil
  show ?case by (simp add: exactly_ret)
next
  case (Cons kv items)
  obtain k v where kv: "kv = (k, v)" by (cases kv)
  from exactly_bind[OF exactly_store_call Cons.IH, of "NattributesAdd i k v"]
  show ?case by (simp add: kv)
qed

lemma exactly_setup_object: "exactly w (setup_object w i objparam) (entity_events i objparam) ()"
proof -
  have n: "exactly w (if nattributes objparam \<noteq> []
           then nattributes_add_all w i (nattributes objparam) else ret ())
           (map (\<lambda>(key, value). NattributesAdd i key value) (nattributes objparam)) ()"
    using exactly_nattributes_add_all[of w i "nattributes objparam"]
    by (cases "nattributes objparam") (simp_all add: exactly_ret)
  have "exactly w (setup_object w i objparam)
     ([Typeclass i] @ [BasetypeSetup i] @ [AtObjectCreation i] @
      (if truthy (permissions objparam) then [PermissionsAdd i (permissions objparam)] else []) @
      (if truthy (locks objparam) then [LocksAdd i (locks objparam)] else []) @
      (if truthy (aliases objparam) then [AliasesAdd i (aliases objparam)] else []) @
      map (\<lambda>(key, value). NattributesAdd i key value) (nattributes objparam) @
      (if attributes objparam \<noteq> []
       then [AttributesBatchAdd i (dict_keys (attributes objparam)) (map snd (attributes objparam))]
       else []) @
      [BasetypePosthookSetup i]) ()"
    unfolding setup_object_def
    by (rule exactly_bind exactly_store_call exactly_if n)+
  then show ?thesis by (simp add: entity_events_def attachment_events_def)
qed

lemma exactly_construct_all:
  "exactly w (construct_all w i objparams)
     (map (\<lambda>(j, objparam). Construct j (create objparam)) (enumerate i objparams))
     (constructed i objparams)"
proof (induction objparams arbitrary: i)
  case Nil
  show ?case by (simp add: exactly_ret constructed_def)
next
  case (Cons objparam rest)
  have "exactly w (construct_all w i (objparam # rest))
     ([Construct i (create objparam)] @
      map (\<lambda>(j, objparam). Construct j (create objparam)) (enumerate (Suc i) rest) @ [])
     (Entity i (create objparam) # constructed (Suc i) rest)"
    unfolding construct_all.simps
    by (rule exactly_bind exactly_store_call Cons.IH exactly_ret)+
  then show ?case by (simp add: constructed_def)
qed

lemma exactly_setup_loop:
  assumes "\<forall>(iobj, dbobj)\<in>set xs. iobj < length objparams"
  shows "exactly w (setup_loop w objparams xs objs)
     (concat (map (\<lambda>(iobj, dbobj). entity_events (position dbobj) (objparams ! iobj)) xs))
     (objs @ map snd xs)"
  using assms
proof (induction xs arbitrary: objs)
  case Nil
  show ?case by (simp add: exactly_ret)
next
  case (Cons x xs)
  obtain iobj dbobj where x: "x = (iobj, dbobj)" by (cases x)
  from Cons.prems have lt: "iobj < length objparams"
    and rest: "\<forall>(iobj, dbobj)\<in>set xs. iobj < length objparams" by (simp_all add: x)
  have "exactly w (bind (setup_object w (position dbobj) (objparams ! iobj))
             (\<lambda>_. setup_loop w objparams xs (objs @ [dbobj])))
     (entity_events (position dbobj) (objparams ! iobj) @
      concat (map (\<lambda>(iobj, dbobj). entity_events (position dbobj) (objparams ! iobj)) xs))
     ((objs @ [dbobj]) @ map snd xs)"
    by (rule exactly_bind exactly_setup_object Cons.IH[OF rest])+
  with lt show ?case by (simp add: x)
qed

lemma exactly_batch_create_object:
  "exactly w (batch_create_object w objparams) (batch_events objparams) (constructed 0 objparams)"
proof -
  have idx: "\<forall>(iobj, dbobj)\<in>set (enumerate 0 (constructed 0 objparams)). iobj < length objparams"
    by (auto simp: in_set_enumerate_eq constructed_def)
  have "exactly w (batch_create_object w objparams)
     (map (\<lambda>(j, objparam). Construct j (create objparam)) (enumerate 0 objparams) @
      concat (map (\<lambda>(iobj, dbobj). entity_events (position dbobj) (objparams ! iobj))
                (enumerate 0 (constructed 0 objparams))))
     ([] @ map snd (enumerate 0 (constructed 0 objparams)))"
    unfolding batch_create_object_def
    by (rule exactly_bind exactly_construct_all exactly_setup_loop[OF idx])+
  moreover have "map snd (enumerate 0 (constructed 0 objparams)) = constructed 0 objparams"
    by (simp add: enumerate_eq_zip)
  ultimately show ?thesis
    by (simp add: batch_events_def enumerate_constructed)
qed

lemma run_schedule_first_raise:
  assumes "\<forall>pre1 ev1 pre2. pre = pre1 @ ev1 # pre2 \<longrightarrow> raises w (tr @ pre1) ev1 = None"
    and "raises w (tr @ pre) ev = Some e"
  shows "run_schedule w (pre @ ev # post) tr = (Some e, tr @ pre @ [ev])"
  using assms
proof (induction pre arbitrary: tr)
  case Nil
  then show ?case by simp
next
  case (Cons a pre)
  from Cons.prems(1)[rule_format, of "[]" a pre] have a: "raises w tr a = None" by simp
  have "\<forall>pre1 ev1 pre2. pre = pre1 @ ev1 # pre2 \<longrightarrow> raises w ((tr @ [a]) @ pre1) ev1 = None"
  proof (intro allI impI)
    fix pre1 ev1 pre2 assume "pre = pre1 @ ev1 # pre2"
    then have "a # pre = (a # pre1) @ ev1 # pre2" by simp
    from Cons.prems(1)[rule_format, OF this] show "raises w ((tr @ [a]) @ pre1) ev1 = None"
      by simp
  qed
  moreover from Cons.prems(2) have "raises w ((tr @ [a]) @ pre) ev = Some e" by simp
  ultimately have "run_schedule w (pre @ ev # post) (tr @ [a]) = (Some e, (tr @ [a]) @ pre @ [ev])"
    by (rule Cons.IH)
  with a show ?case by simp
qed

lemma batch_failure_is_first_raise:
  assumes "batch_create_object w objparams tr = (Inl e, tr')"
  shows "\<exists>pre ev. tr' = tr @ pre @ [ev] \<and> prefix (pre @ [ev]) (batch_events objparams) \<and>
           raises w (tr @ pre) ev = Some e"
  using follows_batch_create_object[of w objparams] assms
  unfolding follows_def by (metis Inl_Inr_False Pair_inject sum.inject(1))

text \<open>
  C7, as the code has it. Nothing in the batch catches an exception. When a call of the
  schedule raises and no call before it has, the batch stops there with that exception,
  and so does \<open>spawn\<close>: the trace holds the calls up to the one that raised and none of
  those after it, which are the rest of that entity's attachments and every hook and
  attachment of the later entities.
\<close>

theorem batch_stops_at_first_raise:
  assumes "batch_events objparams = pre @ ev # post"
    and "\<forall>pre1 ev1 pre2. pre = pre1 @ ev1 # pre2 \<longrightarrow> raises w (tr @ pre1) ev1 = None"
    and "raises w (tr @ pre) ev = Some e"
  shows "batch_create_object w objparams tr = (Inl e, tr @ pre @ [ev]) \<and>
         (\<forall>prototypes tr0. spawn_loop w prototypes [] tr0 = (Inr objparams, tr) \<longrightarrow>
            spawn w prototypes tr0 = (Inl e, tr @ pre @ [ev]))"
proof -
  from run_schedule_first_raise[OF assms(2,3), of post]
  have "run_schedule w (batch_events objparams) tr = (Some e, tr @ pre @ [ev])"
    by (simp add: assms(1))
  with exactly_batch_create_object[of w objparams]
  have b: "batch_create_object w objparams tr = (Inl e, tr @ pre @ [ev])"
    by (simp add: exactly_def)
  then show ?thesis by (simp add: spawn_def bind_def)
qed

theorem batch_runs_schedule_witness:
  "batch_create_object world0 [guard_objparam, grunt_objparam] [] =
     (Inr [Entity 0 guard_kwargs, Entity 1 grunt_kwargs],
      [Construct 0 guard_kwargs, Construct 1 grunt_kwargs,
       Typeclass 0, BasetypeSetup 0, AtObjectCreation 0,
       PermissionsAdd 0 (PStr ''Builders''), AliasesAdd 0 (PList [PStr ''gob'']),
       NattributesAdd 0 (PStr ''mood'') (PStr ''angry''),
       AttributesBatchAdd 0 [PStr ''hp''] [PInt 3], BasetypePosthookSetup 0,
       Typeclass 1, BasetypeSetup 1, AtObjectCreation 1, BasetypePosthookSetup 1]) \<and>
   [Construct 0 guard_kwargs, Construct 1 grunt_kwargs,
       Typeclass 0, BasetypeSetup 0, AtObjectCreation 0,
       PermissionsAdd 0 (PStr ''Builders''), AliasesAdd 0 (PList [PStr ''gob'']),
       NattributesAdd 0 (PStr ''mood'') (PStr ''angry''),
       AttributesBatchAdd 0 [PStr ''hp''] [PInt 3], BasetypePosthookSetup 0,
       Typeclass 1, BasetypeSetup 1, AtObjectCreation 1, BasetypePosthookSetup 1]
     = [] @ batch_events [guard_objparam, grunt_objparam] \<and>
   [Entity 0 guard_kwargs, Entity 1 grunt_kwargs] = constructed 0 [guard_objparam, grunt_objparam]"
proof -
  have h: "batch_create_object world0 [guard_objparam, grunt_objparam] [] =
     (Inr [Entity 0 guard_kwargs, Entity 1 grunt_kwargs],
      [Construct 0 guard_kwargs, Construct 1 grunt_kwargs,
       Typeclass 0, BasetypeSetup 0, AtObjectCreation 0,
       PermissionsAdd 0 (PStr ''Builders''), AliasesAdd 0 (PList [PStr ''gob'']),
       NattributesAdd 0 (PStr ''mood'') (PStr ''angry''),
       AttributesBatchAdd 0 [PStr ''hp''] [PInt 3], BasetypePosthookSetup 0,
       Typeclass 1, BasetypeSetup 1, AtObjectCreation 1, BasetypePosthookSetup 1])"
    by code_simp
  from batch_runs_schedule[OF h] h show ?thesis by blast
qed

theorem batch_stops_at_first_raise_witness:
  "batch_events [guard_objparam, grunt_objparam] =
     [Construct 0 guard_kwargs, Construct 1 grunt_kwargs, Typeclass 0, BasetypeSetup 0,
      AtObjectCreation 0] @
     PermissionsAdd 0 (PStr ''Builders'') #
     [AliasesAdd 0 (PList [PStr ''gob'']), NattributesAdd 0 (PStr ''mood'') (PStr ''angry''),
      AttributesBatchAdd 0 [PStr ''hp''] [PInt 3], BasetypePosthookSetup 0,
      Typeclass 1, BasetypeSetup 1, AtObjectCreation 1, BasetypePosthookSetup 1] \<and>
   raises world1 ([] @ [Construct 0 guard_kwargs, Construct 1 grunt_kwargs, Typeclass 0,
      BasetypeSetup 0, AtObjectCreation 0]) (PermissionsAdd 0 (PStr ''Builders''))
     = Some (Raised 1) \<and>
   batch_create_object world1 [guard_objparam, grunt_objparam] [] =
     (Inl (Raised 1),
      [] @ [Construct 0 guard_kwargs, Construct 1 grunt_kwargs, Typeclass 0, BasetypeSetup 0,
      AtObjectCreation 0] @ [PermissionsAdd 0 (PStr ''Builders'')])"
proof -
  let ?pre = "[Construct 0 guard_kwargs, Construct 1 grunt_kwargs, Typeclass 0, BasetypeSetup 0,
      AtObjectCreation 0]"
  let ?ev = "PermissionsAdd 0 (PStr ''Builders'')"
  let ?post = "[AliasesAdd 0 (PList [PStr ''gob'']), NattributesAdd 0 (PStr ''mood'') (PStr ''angry''),
      AttributesBatchAdd 0 [PStr ''hp''] [PInt 3], BasetypePosthookSetup 0,
      Typeclass 1, BasetypeSetup 1, AtObjectCreation 1, BasetypePosthookSetup 1]"
  have h1: "batch_events [guard_objparam, grunt_objparam] = ?pre @ ?ev # ?post"
    by code_simp
  have quiet: "raises world1 t x = None" if "x \<in> set ?pre" for t x
    using that by (auto simp: world1_def world0_def)
  have h2: "\<forall>pre1 ev1 pre2. ?pre = pre1 @ ev1 # pre2 \<longrightarrow> raises world1 ([] @ pre1) ev1 = None"
  proof (intro allI impI)
    fix pre1 ev1 pre2 assume d: "?pre = pre1 @ ev1 # pre2"
    have "ev1 \<in> set (pre1 @ ev1 # pre2)" by simp
    with d have "ev1 \<in> set ?pre" by simp
    then show "raises world1 ([] @ pre1) ev1 = None" by (rule quiet)
  qed
  have h3: "raises world1 ([] @ ?pre) ?ev = Some (Raised 1)"
    by (simp add: world1_def world0_def)
  from batch_stops_at_first_raise[OF h1 h2 h3] h1 h3 show ?thesis by blast
qed

text \<open>
  The claim as stated fails: when adding the permissions of the first entity raises, the
  second entity of the batch, already constructed, gets no hook and no attachment, and
  \<open>spawn\<close> returns the exception instead of a list.
\<close>

theorem batch_continues_counterexample:
  "spawn world1
     [PDict [(PStr ''key'', PStr ''goblin guard''), (PStr ''permissions'', PStr ''Builders'')],
      PDict [(PStr ''key'', PStr ''goblin grunt'')]] [] =
     (Inl (Raised 1),
      [Randint 7, HandleDbref PNone (Inr PNone), HandleDbref (PStr ''#2'') (Inr (PStr ''#2'')),
       HandleDbref PNone (Inr PNone),
       Randint 7, HandleDbref PNone (Inr PNone), HandleDbref (PStr ''#2'') (Inr (PStr ''#2'')),
       HandleDbref PNone (Inr PNone),
       Construct 0 guard_kwargs, Construct 1 grunt_kwargs,
       Typeclass 0, BasetypeSetup 0, AtObjectCreation 0,
       PermissionsAdd 0 (PStr ''Builders'')])"
  by code_simp

lemma dict_pop_eq:
  "dict_pop k dflt d = ((case map_of d k of None \<Rightarrow> dflt | Some v \<Rightarrow> v), dict_remove k d)"
proof (cases "map_of d k")
  case None
  then have "k \<notin> fst ` set d" by (simp add: map_of_eq_None_iff)
  then have "dict_remove k d = d" by (auto simp: dict_remove_def filter_id_conv)
  with None show ?thesis by (simp add: dict_pop_def)
next
  case (Some v)
  then show ?thesis by (simp add: dict_pop_def)
qed

lemma map_of_dict_remove_other: "k \<noteq> k' \<Longrightarrow> map_of (dict_remove k' d) k = map_of d k"
  by (simp add: map_of_dict_remove)

lemma unreserved_eq:
  "dict_remove (PStr ''aliases'') (dict_remove (PStr ''locks'') (dict_remove (PStr ''permissions'')
     (dict_remove (PStr ''typeclass'') (dict_remove (PStr ''destination'')
       (dict_remove (PStr ''home'') (dict_remove (PStr ''location'')
         (dict_remove (PStr ''key'') prot))))))) = unreserved prot"
  by (induction prot) (auto simp: dict_remove_def unreserved_def RESERVED_def)

lemma build_objparam_unfold:
  "build_objparam w prot tr =
     (let n = randint w tr; tr1 = tr @ [Randint n];
          location = field_or prot ''location'' PNone;
          r1 = handle_dbref w tr1 location; tr2 = tr1 @ [HandleDbref location r1];
          home = field_or prot ''home'' (DEFAULT_HOME w);
          r2 = handle_dbref w tr2 home; tr3 = tr2 @ [HandleDbref home r2];
          destination = field_or prot ''destination'' PNone;
          r3 = handle_dbref w tr3 destination; tr4 = tr3 @ [HandleDbref destination r3]
      in case r1 of Inl e \<Rightarrow> (Inl e, tr2) | Inr location' \<Rightarrow>
         (case r2 of Inl e \<Rightarrow> (Inl e, tr3) | Inr home' \<Rightarrow>
         (case r3 of Inl e \<Rightarrow> (Inl e, tr4) | Inr destination' \<Rightarrow>
         (case make_nattributes (unreserved prot) [] of Inl e \<Rightarrow> (Inl e, tr4) | Inr nattrs \<Rightarrow>
         (case make_attributes w nattrs (unreserved prot) [] tr4 of
            (Inl e, tr') \<Rightarrow> (Inl e, tr')
          | (Inr attrs, tr') \<Rightarrow>
              (Inr \<lparr>create = \<lparr>db_key = field_or prot ''key'' (spawned_object_name n),
                                db_location = location', db_home = home',
                                db_destination = destination',
                                db_typeclass_path =
                                  field_or prot ''typeclass'' (BASE_OBJECT_TYPECLASS w)\<rparr>,
                    permissions = field_or prot ''permissions'' (PStr []),
                    locks = field_or prot ''locks'' (PStr []),
                    aliases = field_or prot ''aliases'' (PStr []),
                    nattributes = nattrs, attributes = attrs\<rparr>, tr'))))))"
  unfolding build_objparam_def dict_pop_eq
  by (simp add: bind_def call_randint_def call_handle_dbref_def lift_def ret_def Let_def
        field_or_def map_of_dict_remove unreserved_eq
      split: sum.splits prod.splits)

lemma build_objparam_key:
  assumes "build_objparam w prot tr = (Inr objparam, tr')"
  shows "db_key (create objparam) = field_or prot ''key'' (spawned_object_name (randint w tr))"
  using assms unfolding build_objparam_unfold
  by (auto simp: Let_def split: sum.splits prod.splits)

lemma built_fromI:
  assumes "build_objparam w prot tr = (Inr objparam, tr')"
  shows "built_from w (create objparam) prot"
  using assms build_objparam_key[OF assms] by (auto simp: built_from_def field_or_def)

lemma spawn_loop_order:
  assumes "spawn_loop w prototypes acc tr = (Inr objparams, tr')"
  shows "\<exists>new. objparams = acc @ new \<and>
           list_all2 (\<lambda>objparam prot. built_from w (create objparam) prot) new
             (filter (\<lambda>m. m \<noteq> []) (map resolved prototypes))"
  using assms
proof (induction prototypes arbitrary: acc tr)
  case Nil
  then show ?case by (simp add: ret_def)
next
  case (Cons p rest)
  from Cons.prems obtain prot where prot: "get_prototype p [] = Inr prot"
    by (cases "get_prototype p []") (auto simp: bind_def lift_def)
  then have res: "resolved p = prot" by (simp add: resolved_def)
  show ?case
  proof (cases "prot = []")
    case True
    with Cons.prems prot have "spawn_loop w rest acc tr = (Inr objparams, tr')"
      by (simp add: bind_def lift_def)
    from Cons.IH[OF this] show ?thesis by (simp add: res True)
  next
    case False
    with Cons.prems prot obtain objparam tr1 where b: "build_objparam w prot tr = (Inr objparam, tr1)"
      and r: "spawn_loop w rest (acc @ [objparam]) tr1 = (Inr objparams, tr')"
      by (auto simp: bind_def lift_def split: sum.splits prod.splits)
    from Cons.IH[OF r] obtain new where new: "objparams = (acc @ [objparam]) @ new"
      "list_all2 (\<lambda>objparam prot. built_from w (create objparam) prot) new
             (filter (\<lambda>m. m \<noteq> []) (map resolved rest))" by blast
    have "objparams = acc @ (objparam # new) \<and>
        list_all2 (\<lambda>objparam prot. built_from w (create objparam) prot) (objparam # new)
             (filter (\<lambda>m. m \<noteq> []) (map resolved (p # rest)))"
      using new built_fromI[OF b] by (simp add: res False)
    then show ?thesis by blast
  qed
qed

lemma constructed_created_from: "map created_from (constructed i objparams) = map create objparams"
  by (induction objparams arbitrary: i) (simp_all add: constructed_def)

lemma constructed_position:
  "map position (constructed i objparams) = [i..<i + length objparams]"
proof (induction objparams arbitrary: i)
  case Nil
  show ?case by (simp add: constructed_def)
next
  case (Cons objparam rest)
  have "map position (constructed i (objparam # rest)) = i # map position (constructed (Suc i) rest)"
    by (simp add: constructed_def)
  also have "\<dots> = i # [Suc i..<Suc i + length rest]" by (simp only: Cons.IH)
  also have "\<dots> = [i..<i + length (objparam # rest)]"
    using upt_rec[of i "i + length (objparam # rest)"] by simp
  finally show ?case .
qed

text \<open>
  C5. The entities \<open>spawn\<close> returns stand, one for one and in the same order, for the
  specifications whose resolved mapping is not empty: each was constructed from the
  creation arguments built from its specification (and carries its \<^verbatim>\<open>key\<close> when it has
  one), and sits at the batch position equal to its place in the returned list. A
  specification with an empty resolution has no entity and no place.
\<close>

theorem spawn_preserves_order:
  assumes "spawn w prototypes tr = (Inr objs, tr')"
  shows "list_all2 (\<lambda>obj prot. built_from w (created_from obj) prot) objs
           (filter (\<lambda>m. m \<noteq> []) (map resolved prototypes)) \<and>
         map position objs = [0..<length objs]"
proof -
  from assms obtain objparams tr1 where l: "spawn_loop w prototypes [] tr = (Inr objparams, tr1)"
    and b: "batch_create_object w objparams tr1 = (Inr objs, tr')"
    by (auto simp: spawn_def bind_def split: sum.splits prod.splits)
  from follows_batch_create_object[of w objparams] b have objs: "objs = constructed 0 objparams"
    unfolding follows_def by (metis Inl_Inr_False Pair_inject sum.inject(2))
  from spawn_loop_order[OF l]
  have "list_all2 (built_from w) (map create objparams)
             (filter (\<lambda>m. m \<noteq> []) (map resolved prototypes))"
    by (simp add: list_all2_map1)
  moreover have "map create objparams = map created_from objs"
    by (simp add: objs constructed_created_from)
  ultimately have "list_all2 (built_from w) (map created_from objs)
             (filter (\<lambda>m. m \<noteq> []) (map resolved prototypes))"
    by (simp only:)
  then have "list_all2 (\<lambda>obj prot. built_from w (created_from obj) prot) objs
           (filter (\<lambda>m. m \<noteq> []) (map resolved prototypes))"
    by (simp add: list_all2_map1)
  moreover have "map position objs = [0..<length objs]"
    using constructed_position[of 0 objparams] by (simp add: objs constructed_def)
  ultimately show ?thesis by simp
qed

theorem spawn_preserves_order_witness:
  "fst (spawn world0 [GOBLIN, PDict [], GOBLIN_ARCHWIZARD] []) =
     Inr [Entity 0 grunt_kwargs, Entity 1 archwizard_kwargs] \<and>
   list_all2 (\<lambda>obj prot. built_from world0 (created_from obj) prot)
     [Entity 0 grunt_kwargs, Entity 1 archwizard_kwargs]
     (filter (\<lambda>m. m \<noteq> []) (map resolved [GOBLIN, PDict [], GOBLIN_ARCHWIZARD])) \<and>
   map position [Entity 0 grunt_kwargs, Entity 1 archwizard_kwargs] =
     [0..<length [Entity 0 grunt_kwargs, Entity 1 archwizard_kwargs]]"
proof -
  have f: "fst (spawn world0 [GOBLIN, PDict [], GOBLIN_ARCHWIZARD] []) =
     Inr [Entity 0 grunt_kwargs, Entity 1 archwizard_kwargs]"
    by code_simp
  then obtain tr' where h: "spawn world0 [GOBLIN, PDict [], GOBLIN_ARCHWIZARD] [] =
     (Inr [Entity 0 grunt_kwargs, Entity 1 archwizard_kwargs], tr')"
    by (cases "spawn world0 [GOBLIN, PDict [], GOBLIN_ARCHWIZARD] []") auto
  from spawn_preserves_order[OF h] f show ?thesis by blast
qed

lemma invokes_field_Cons: "invokes_field items ev \<Longrightarrow> invokes_field (kv # items) ev"
  unfolding invokes_field_def by fastforce

lemma invokes_field_here: "invokes_field ((k, PCallable c) # items) (Invoke c r)"
  unfolding invokes_field_def by fastforce

lemma make_attributes_invokes:
  assumes "make_attributes w nattrs items acc tr = (res, tr')"
  shows "\<exists>evs. tr' = tr @ evs \<and> (\<forall>ev\<in>set evs. invokes_field items ev)"
  using assms
proof (induction items arbitrary: acc tr)
  case Nil
  then show ?case by (simp add: ret_def)
next
  case (Cons kv items)
  obtain k v where kv: "kv = (k, v)" by (cases kv)
  have weaken: "\<exists>evs. tr' = tr @ evs \<and> (\<forall>ev\<in>set evs. invokes_field (kv # items) ev)"
    if "\<exists>evs. tr' = tr @ evs \<and> (\<forall>ev\<in>set evs. invokes_field items ev)"
    using that invokes_field_Cons by blast
  show ?case
  proof (cases "\<not> (k \<in> set CREATE_OBJECT_KWARGS \<or> dict_has nattrs k)")
    case False
    with Cons.prems have "make_attributes w nattrs items acc tr = (res, tr')" by (auto simp: kv)
    from Cons.IH[OF this] show ?thesis by (rule weaken)
  next
    case generic: True
    show ?thesis
    proof (cases "\<exists>c. v = PCallable c")
      case False
      with Cons.prems generic
      have "make_attributes w nattrs items (dict_setitem k v acc) tr = (res, tr')"
        by (cases v) (auto simp: kv bind_def ret_def)
      from Cons.IH[OF this] show ?thesis by (rule weaken)
    next
      case True
      then obtain c where c: "v = PCallable c" ..
      let ?tr1 = "tr @ [Invoke c (invoke w tr c)]"
      have here: "invokes_field (kv # items) (Invoke c (invoke w tr c))"
        unfolding kv c by (rule invokes_field_here)
      show ?thesis
      proof (cases "invoke w tr c")
        case (Inl e)
        with Cons.prems generic c have "tr' = tr @ [Invoke c (invoke w tr c)]"
          by (auto simp: kv bind_def call_value_def)
        with here show ?thesis by auto
      next
        case (Inr x)
        with Cons.prems generic c
        have "make_attributes w nattrs items (dict_setitem k x acc) ?tr1 = (res, tr')"
          by (auto simp: kv bind_def call_value_def)
        from Cons.IH[OF this] obtain evs where evs: "tr' = ?tr1 @ evs"
          "\<forall>ev\<in>set evs. invokes_field items ev" by blast
        have "tr' = tr @ (Invoke c (invoke w tr c) # evs)" using evs(1) by simp
        moreover have "\<forall>ev\<in>set (Invoke c (invoke w tr c) # evs). invokes_field (kv # items) ev"
          using evs(2) here invokes_field_Cons by auto
        ultimately show ?thesis by blast
      qed
    qed
  qed
qed

lemma build_objparam_invokes:
  assumes "build_objparam w prot tr = (res, tr')"
  shows "\<exists>evs. tr' = tr @ evs \<and>
           (\<forall>ev\<in>set evs. (\<exists>c r. ev = Invoke c r) \<longrightarrow> invokes_field (unreserved prot) ev)"
proof -
  let ?n = "randint w tr"
  let ?tr1 = "tr @ [Randint ?n]"
  let ?l = "field_or prot ''location'' PNone"
  let ?r1 = "handle_dbref w ?tr1 ?l"
  let ?tr2 = "?tr1 @ [HandleDbref ?l ?r1]"
  let ?h = "field_or prot ''home'' (DEFAULT_HOME w)"
  let ?r2 = "handle_dbref w ?tr2 ?h"
  let ?tr3 = "?tr2 @ [HandleDbref ?h ?r2]"
  let ?d = "field_or prot ''destination'' PNone"
  let ?r3 = "handle_dbref w ?tr3 ?d"
  let ?tr4 = "?tr3 @ [HandleDbref ?d ?r3]"
  let ?P = "\<lambda>evs. \<forall>ev\<in>set evs. (\<exists>c r. ev = Invoke c r) \<longrightarrow> invokes_field (unreserved prot) ev"
  have p2: "tr' = tr @ [Randint ?n, HandleDbref ?l ?r1] \<Longrightarrow> ?thesis" by auto
  have p3: "tr' = tr @ [Randint ?n, HandleDbref ?l ?r1, HandleDbref ?h ?r2] \<Longrightarrow> ?thesis" by auto
  have p4: "tr' = tr @ [Randint ?n, HandleDbref ?l ?r1, HandleDbref ?h ?r2, HandleDbref ?d ?r3]
      \<Longrightarrow> ?thesis" by auto
  show ?thesis
  proof (cases "tr' = ?tr2 \<or> tr' = ?tr3 \<or> tr' = ?tr4")
    case True
    then show ?thesis using p2 p3 p4 by auto
  next
    case False
    with assms obtain nattrs res2
      where "make_attributes w nattrs (unreserved prot) [] ?tr4 = (res2, tr')"
      unfolding build_objparam_unfold
      by (auto simp: Let_def split: sum.splits prod.splits)
    from make_attributes_invokes[OF this] obtain evs where evs: "tr' = ?tr4 @ evs"
      "\<forall>ev\<in>set evs. invokes_field (unreserved prot) ev"
      by blast
    have "tr' = tr @ ([Randint ?n, HandleDbref ?l ?r1, HandleDbref ?h ?r2, HandleDbref ?d ?r3] @ evs)"
      using evs(1) by simp
    moreover have "?P ([Randint ?n, HandleDbref ?l ?r1, HandleDbref ?h ?r2, HandleDbref ?d ?r3] @ evs)"
      using evs(2) by auto
    ultimately show ?thesis by blast
  qed
qed

lemma only_field_calls_Nil: "only_field_calls ps []"
  by (simp add: only_field_calls_def)

lemma only_field_calls_Cons: "only_field_calls ps evs \<Longrightarrow> only_field_calls (p # ps) evs"
  by (simp add: only_field_calls_def)

lemma only_field_calls_append:
  "only_field_calls ps evs1 \<Longrightarrow> only_field_calls ps evs2 \<Longrightarrow> only_field_calls ps (evs1 @ evs2)"
  by (simp add: only_field_calls_def) blast

lemma only_field_calls_here:
  assumes "\<forall>ev\<in>set evs. (\<exists>c r. ev = Invoke c r) \<longrightarrow> invokes_field (unreserved (resolved p)) ev"
  shows "only_field_calls (p # ps) evs"
  using assms by (simp add: only_field_calls_def)

lemma only_field_calls_none:
  assumes "\<forall>ev\<in>set evs. \<forall>c r. ev \<noteq> Invoke c r"
  shows "only_field_calls ps evs"
  using assms by (simp add: only_field_calls_def)

lemma spawn_loop_invokes:
  assumes "spawn_loop w prototypes acc tr = (res, tr')"
  shows "\<exists>evs. tr' = tr @ evs \<and> only_field_calls prototypes evs"
  using assms
proof (induction prototypes arbitrary: acc tr)
  case Nil
  then have "tr' = tr @ []" by (simp add: ret_def)
  then show ?case using only_field_calls_Nil by blast
next
  case (Cons p rest)
  have unfold: "spawn_loop w (p # rest) acc tr =
      (case get_prototype p [] of
         Inl e \<Rightarrow> (Inl e, tr)
       | Inr prot \<Rightarrow>
           if prot = [] then spawn_loop w rest acc tr
           else (case build_objparam w prot tr of
                   (Inl e, tr1) \<Rightarrow> (Inl e, tr1)
                 | (Inr objparam, tr1) \<Rightarrow> spawn_loop w rest (acc @ [objparam]) tr1))"
    by (simp add: bind_def lift_def split: sum.splits)
  show ?case
  proof (cases "get_prototype p []")
    case (Inl e)
    with Cons.prems have "tr' = tr @ []" unfolding unfold by simp
    then show ?thesis using only_field_calls_Nil by blast
  next
    case (Inr prot)
    then have res: "resolved p = prot" by (simp add: resolved_def)
    show ?thesis
    proof (cases "prot = []")
      case True
      with Cons.prems Inr have "spawn_loop w rest acc tr = (res, tr')" unfolding unfold by simp
      from Cons.IH[OF this] obtain evs where "tr' = tr @ evs" "only_field_calls rest evs" by blast
      then show ?thesis using only_field_calls_Cons by blast
    next
      case False
      obtain r1 tr1 where b: "build_objparam w prot tr = (r1, tr1)"
        by (cases "build_objparam w prot tr")
      from build_objparam_invokes[OF b] obtain evs1 where evs1: "tr1 = tr @ evs1"
        "\<forall>ev\<in>set evs1. (\<exists>c r. ev = Invoke c r) \<longrightarrow> invokes_field (unreserved prot) ev"
        by blast
      from evs1(2) have q1: "only_field_calls (p # rest) evs1"
        unfolding res[symmetric] by (rule only_field_calls_here)
      show ?thesis
      proof (cases r1)
        case (Inl e)
        with Cons.prems \<open>get_prototype p [] = Inr prot\<close> False b have "tr' = tr1"
          unfolding unfold by simp
        with evs1(1) q1 show ?thesis by blast
      next
        case r1: (Inr objparam)
        with Cons.prems \<open>get_prototype p [] = Inr prot\<close> False b
        have "spawn_loop w rest (acc @ [objparam]) tr1 = (res, tr')"
          unfolding unfold by simp
        from Cons.IH[OF this] obtain evs2 where evs2: "tr' = tr1 @ evs2"
          "only_field_calls rest evs2" by blast
        have "tr' = tr @ (evs1 @ evs2)" using evs1(1) evs2(1) by simp
        moreover have "only_field_calls (p # rest) (evs1 @ evs2)"
          using q1 only_field_calls_Cons[OF evs2(2), of p] by (rule only_field_calls_append)
        ultimately show ?thesis by blast
      qed
    qed
  qed
qed

lemma batch_events_no_invoke: "ev \<in> set (batch_events objparams) \<Longrightarrow> ev \<noteq> Invoke c r"
  by (auto simp: batch_events_def entity_events_def attachment_events_def split: if_splits)

lemma batch_create_object_invokes:
  assumes "batch_create_object w objparams tr = (res, tr')"
  shows "\<exists>evs. tr' = tr @ evs \<and> only_field_calls ps evs"
proof -
  from follows_batch_create_object[of w objparams]
  have "batch_create_object w objparams tr = (Inr (constructed 0 objparams), tr @ batch_events objparams) \<or>
        (\<exists>e pre ev. batch_create_object w objparams tr = (Inl e, tr @ pre @ [ev]) \<and>
           prefix (pre @ [ev]) (batch_events objparams) \<and> raises w (tr @ pre) ev = Some e)"
    unfolding follows_def by blast
  then show ?thesis
  proof
    assume "batch_create_object w objparams tr = (Inr (constructed 0 objparams), tr @ batch_events objparams)"
    with assms have "tr' = tr @ batch_events objparams" by simp
    moreover have "only_field_calls ps (batch_events objparams)"
      by (rule only_field_calls_none) (use batch_events_no_invoke in blast)
    ultimately show ?thesis by blast
  next
    assume "\<exists>e pre ev. batch_create_object w objparams tr = (Inl e, tr @ pre @ [ev]) \<and>
           prefix (pre @ [ev]) (batch_events objparams) \<and> raises w (tr @ pre) ev = Some e"
    then obtain e pre ev where h: "batch_create_object w objparams tr = (Inl e, tr @ pre @ [ev])"
      "prefix (pre @ [ev]) (batch_events objparams)" by blast
    from h(1) assms have "tr' = tr @ (pre @ [ev])" by simp
    moreover have "only_field_calls ps (pre @ [ev])"
    proof (rule only_field_calls_none, intro ballI allI)
      fix x c r assume "x \<in> set (pre @ [ev])"
      with set_mono_prefix[OF h(2)] have "x \<in> set (batch_events objparams)" by blast
      then show "x \<noteq> Invoke c r" by (rule batch_events_no_invoke)
    qed
    ultimately show ?thesis by blast
  qed
qed

lemma spawn_invokes:
  assumes "spawn w prototypes tr = (res, tr')"
  shows "\<exists>evs. tr' = tr @ evs \<and> only_field_calls prototypes evs"
proof -
  obtain r1 tr1 where l: "spawn_loop w prototypes [] tr = (r1, tr1)"
    by (cases "spawn_loop w prototypes [] tr")
  from spawn_loop_invokes[OF l] obtain evs1 where evs1: "tr1 = tr @ evs1"
    "only_field_calls prototypes evs1" by blast
  show ?thesis
  proof (cases r1)
    case (Inl e)
    with assms l have "tr' = tr1" by (simp add: spawn_def bind_def)
    with evs1 show ?thesis by blast
  next
    case (Inr objparams)
    with assms l have "batch_create_object w objparams tr1 = (res, tr')"
      by (simp add: spawn_def bind_def)
    from batch_create_object_invokes[OF this, of prototypes] obtain evs2
      where evs2: "tr' = tr1 @ evs2" "only_field_calls prototypes evs2" by blast
    have "tr' = tr @ (evs1 @ evs2)" using evs1(1) evs2(1) by simp
    moreover have "only_field_calls prototypes (evs1 @ evs2)"
      using evs1(2) evs2(2) by (rule only_field_calls_append)
    ultimately show ?thesis by blast
  qed
qed

lemma build_objparam_passes_through:
  assumes "build_objparam w prot tr = (Inr objparam, tr')"
  shows "passes_through objparam prot"
  using assms unfolding build_objparam_unfold passes_through_def
  by (auto simp: Let_def field_or_def split: sum.splits prod.splits)

lemma spawn_loop_passes_through:
  assumes "spawn_loop w prototypes acc tr = (Inr objparams, tr')"
  shows "\<exists>new. objparams = acc @ new \<and>
           list_all2 passes_through new (filter (\<lambda>m. m \<noteq> []) (map resolved prototypes))"
  using assms
proof (induction prototypes arbitrary: acc tr)
  case Nil
  then show ?case by (simp add: ret_def)
next
  case (Cons p rest)
  from Cons.prems obtain prot where prot: "get_prototype p [] = Inr prot"
    by (cases "get_prototype p []") (auto simp: bind_def lift_def)
  then have res: "resolved p = prot" by (simp add: resolved_def)
  show ?case
  proof (cases "prot = []")
    case True
    with Cons.prems prot have "spawn_loop w rest acc tr = (Inr objparams, tr')"
      by (simp add: bind_def lift_def)
    from Cons.IH[OF this] show ?thesis by (simp add: res True)
  next
    case False
    with Cons.prems prot obtain objparam tr1 where b: "build_objparam w prot tr = (Inr objparam, tr1)"
      and r: "spawn_loop w rest (acc @ [objparam]) tr1 = (Inr objparams, tr')"
      by (auto simp: bind_def lift_def split: sum.splits prod.splits)
    from Cons.IH[OF r] obtain new where new: "objparams = (acc @ [objparam]) @ new"
      "list_all2 passes_through new (filter (\<lambda>m. m \<noteq> []) (map resolved rest))" by blast
    have "objparams = acc @ (objparam # new) \<and>
        list_all2 passes_through (objparam # new)
             (filter (\<lambda>m. m \<noteq> []) (map resolved (p # rest)))"
      using new build_objparam_passes_through[OF b] by (simp add: res False)
    then show ?thesis by blast
  qed
qed

lemma unreserved_not_passed_on:
  assumes "(k, v) \<in> set (unreserved prot)"
  shows "(k, v) \<in> set prot \<and> k \<notin> set PASSED_ON"
  using assms by (auto simp: unreserved_def RESERVED_def PASSED_ON_def)

text \<open>
  C10. The resolved value of \<^verbatim>\<open>key\<close>, \<^verbatim>\<open>typeclass\<close>, \<^verbatim>\<open>permissions\<close>, \<^verbatim>\<open>locks\<close> or
  \<^verbatim>\<open>aliases\<close> is handed on as it is, a function object included; and a function object
  that occurs in the resolved mappings under these names only is never called by
  \<open>spawn\<close>, whether \<open>spawn\<close> returns or raises.
\<close>

theorem reserved_callables_pass_through:
  assumes "spawn w prototypes tr = (res, tr')"
  shows "(\<exists>evs. tr' = tr @ evs \<and>
            (\<forall>c. (\<forall>p\<in>set prototypes. \<forall>k. (k, PCallable c) \<in> set (resolved p) \<longrightarrow>
                      k \<in> set PASSED_ON)
                 \<longrightarrow> (\<forall>r. Invoke c r \<notin> set evs))) \<and>
         (\<forall>objparams t. spawn_loop w prototypes [] tr = (Inr objparams, t) \<longrightarrow>
            list_all2 passes_through objparams
              (filter (\<lambda>m. m \<noteq> []) (map resolved prototypes)))"
proof
  from spawn_invokes[OF assms] obtain evs where evs: "tr' = tr @ evs"
    "only_field_calls prototypes evs" by blast
  have "\<forall>r. Invoke c r \<notin> set evs"
    if only: "\<forall>p\<in>set prototypes. \<forall>k. (k, PCallable c) \<in> set (resolved p) \<longrightarrow> k \<in> set PASSED_ON"
    for c
  proof (intro allI notI)
    fix r assume "Invoke c r \<in> set evs"
    with evs(2) obtain p where p: "p \<in> set prototypes"
      "invokes_field (unreserved (resolved p)) (Invoke c r)"
      unfolding only_field_calls_def by blast
    from p(2) obtain k where "(k, PCallable c) \<in> set (unreserved (resolved p))"
      unfolding invokes_field_def by auto
    from unreserved_not_passed_on[OF this] only p(1) show False by blast
  qed
  with evs(1) show "\<exists>evs. tr' = tr @ evs \<and>
            (\<forall>c. (\<forall>p\<in>set prototypes. \<forall>k. (k, PCallable c) \<in> set (resolved p) \<longrightarrow>
                      k \<in> set PASSED_ON)
                 \<longrightarrow> (\<forall>r. Invoke c r \<notin> set evs))" by blast
next
  show "\<forall>objparams t. spawn_loop w prototypes [] tr = (Inr objparams, t) \<longrightarrow>
            list_all2 passes_through objparams
              (filter (\<lambda>m. m \<noteq> []) (map resolved prototypes))"
    using spawn_loop_passes_through[of w prototypes "[]" tr] by auto
qed

theorem reserved_callables_pass_through_witness:
  "spawn world0 [LAZY_GOBLIN] [] = (Inr [Entity 0 lazy_kwargs], lazy_trace) \<and>
   (\<forall>r. Invoke 3 r \<notin> set lazy_trace) \<and> (\<forall>r. Invoke 4 r \<notin> set lazy_trace)"
proof -
  have h: "spawn world0 [LAZY_GOBLIN] [] = (Inr [Entity 0 lazy_kwargs], lazy_trace)"
    by code_simp
  have r: "resolved LAZY_GOBLIN =
      [(PStr ''key'', PCallable 3), (PStr ''permissions'', PCallable 4),
       (PStr ''health'', PCallable 0)]"
    by code_simp
  have only3: "\<forall>p\<in>set [LAZY_GOBLIN]. \<forall>k. (k, PCallable 3) \<in> set (resolved p) \<longrightarrow> k \<in> set PASSED_ON"
    by (simp add: r PASSED_ON_def)
  have only4: "\<forall>p\<in>set [LAZY_GOBLIN]. \<forall>k. (k, PCallable 4) \<in> set (resolved p) \<longrightarrow> k \<in> set PASSED_ON"
    by (simp add: r PASSED_ON_def)
  from reserved_callables_pass_through[OF h] obtain evs where evs: "lazy_trace = [] @ evs"
    "\<forall>c. (\<forall>p\<in>set [LAZY_GOBLIN]. \<forall>k. (k, PCallable c) \<in> set (resolved p) \<longrightarrow> k \<in> set PASSED_ON)
         \<longrightarrow> (\<forall>r. Invoke c r \<notin> set evs)"
    by blast
  from evs(2) only3 have "\<forall>r. Invoke 3 r \<notin> set evs" by blast
  moreover from evs(2) only4 have "\<forall>r. Invoke 4 r \<notin> set evs" by blast
  ultimately show ?thesis using h evs(1) by simp
qed

section \<open>Lazy values\<close>

lemma make_attributes_lazy:
  assumes "make_attributes w nattrs items acc tr = (Inr attrs, tr')"
    and "distinct (dict_keys items)"
  shows "\<exists>evs. tr' = tr @ evs \<and>
           list_all2 (called_for attrs) evs
             (filter (\<lambda>kv. callable (snd kv)) (generic_fields nattrs items)) \<and>
           (\<forall>kv\<in>set (generic_fields nattrs items).
               \<not> callable (snd kv) \<longrightarrow> map_of attrs (fst kv) = Some (snd kv)) \<and>
           (\<forall>k. k \<notin> fst ` set (generic_fields nattrs items) \<longrightarrow> map_of attrs k = map_of acc k)"
  using assms
proof (induction items arbitrary: acc tr)
  case Nil
  then show ?case by (simp add: ret_def generic_fields_def)
next
  case (Cons kv items)
  obtain k v where kv: "kv = (k, v)" by (cases kv)
  from Cons.prems(2) have dist: "distinct (dict_keys items)" and knew: "k \<notin> fst ` set items"
    by (auto simp: dict_keys_def kv)
  let ?G = "generic_fields nattrs items"
  have sub: "fst ` set ?G \<subseteq> fst ` set items" by (auto simp: generic_fields_def)
  show ?case
  proof (cases "\<not> (k \<in> set CREATE_OBJECT_KWARGS \<or> dict_has nattrs k)")
    case False
    then have g: "generic_fields nattrs (kv # items) = ?G" by (auto simp: generic_fields_def kv)
    from False Cons.prems(1) have "make_attributes w nattrs items acc tr = (Inr attrs, tr')"
      by (auto simp: kv)
    from Cons.IH[OF this dist] show ?thesis by (simp only: g)
  next
    case generic: True
    then have g: "generic_fields nattrs (kv # items) = kv # ?G" by (auto simp: generic_fields_def kv)
    show ?thesis
    proof (cases "\<exists>c. v = PCallable c")
      case False
      then have nc: "\<not> callable v" by (cases v) auto
      from False Cons.prems(1) generic
      have "make_attributes w nattrs items (dict_setitem k v acc) tr = (Inr attrs, tr')"
        by (cases v) (auto simp: kv bind_def ret_def)
      from Cons.IH[OF this dist] obtain evs where evs: "tr' = tr @ evs"
        "list_all2 (called_for attrs) evs (filter (\<lambda>kv. callable (snd kv)) ?G)"
        "\<forall>kv\<in>set ?G. \<not> callable (snd kv) \<longrightarrow> map_of attrs (fst kv) = Some (snd kv)"
        "\<forall>k'. k' \<notin> fst ` set ?G \<longrightarrow> map_of attrs k' = map_of (dict_setitem k v acc) k'"
        by blast
      from knew sub have "k \<notin> fst ` set ?G" by blast
      with evs(4) have here: "map_of attrs k = Some v" by (simp add: map_of_dict_setitem)
      have rest: "\<forall>k'. k' \<notin> fst ` set (kv # ?G) \<longrightarrow> map_of attrs k' = map_of acc k'"
        using evs(4) by (simp add: kv map_of_dict_setitem)
      from evs(1,2,3) here rest nc show ?thesis
        unfolding g by (intro exI[of _ evs]) (simp add: kv)
    next
      case True
      then obtain c where c: "v = PCallable c" ..
      from Cons.prems(1) generic c obtain x where x: "invoke w tr c = Inr x"
        by (cases "invoke w tr c") (auto simp: kv bind_def call_value_def)
      let ?tr1 = "tr @ [Invoke c (Inr x)]"
      from Cons.prems(1) generic c x
      have "make_attributes w nattrs items (dict_setitem k x acc) ?tr1 = (Inr attrs, tr')"
        by (auto simp: kv bind_def call_value_def)
      from Cons.IH[OF this dist] obtain evs where evs: "tr' = ?tr1 @ evs"
        "list_all2 (called_for attrs) evs (filter (\<lambda>kv. callable (snd kv)) ?G)"
        "\<forall>kv\<in>set ?G. \<not> callable (snd kv) \<longrightarrow> map_of attrs (fst kv) = Some (snd kv)"
        "\<forall>k'. k' \<notin> fst ` set ?G \<longrightarrow> map_of attrs k' = map_of (dict_setitem k x acc) k'"
        by blast
      from knew sub have "k \<notin> fst ` set ?G" by blast
      with evs(4) have "map_of attrs k = Some x" by (simp add: map_of_dict_setitem)
      then have here: "called_for attrs (Invoke c (Inr x)) kv"
        by (simp add: called_for_def kv c)
      have rest: "\<forall>k'. k' \<notin> fst ` set (kv # ?G) \<longrightarrow> map_of attrs k' = map_of acc k'"
        using evs(4) by (simp add: kv map_of_dict_setitem)
      have tr': "tr' = tr @ (Invoke c (Inr x) # evs)" using evs(1) by simp
      from tr' evs(2,3) here rest show ?thesis
        unfolding g by (intro exI[of _ "Invoke c (Inr x) # evs"]) (simp add: kv c)
    qed
  qed
qed

lemma startswith_ndb:
  assumes "py_startswith k ''ndb_'' = Inr True"
  shows "\<exists>name. k = PStr (''ndb_'' @ name) \<and> split_underscore_second k = Inr (PStr name)"
proof -
  from assms obtain s where s: "k = PStr s" "take (length ''ndb_'') s = ''ndb_''"
    by (cases k) auto
  then have "s = ''ndb_'' @ drop (length ''ndb_'') s" by (metis append_take_drop_id)
  then obtain name where name: "s = ''ndb_'' @ name" ..
  then show ?thesis by (simp add: s(1))
qed

lemma not_startswith_ndb:
  assumes "py_startswith k ''ndb_'' = Inr False"
  shows "k \<noteq> PStr (''ndb_'' @ name)"
  using assms by auto

lemma make_nattributes_stores:
  assumes "make_nattributes items acc = Inr nattrs" and "distinct (dict_keys items)"
  shows "map_of nattrs (PStr name) =
           (case map_of items (PStr (''ndb_'' @ name)) of
              Some v \<Rightarrow> Some v
            | None \<Rightarrow> map_of acc (PStr name))"
  using assms
proof (induction items arbitrary: acc)
  case Nil
  then show ?case by simp
next
  case (Cons kv items)
  obtain k v where kv: "kv = (k, v)" by (cases kv)
  from Cons.prems(2) have dist: "distinct (dict_keys items)" and knew: "map_of items k = None"
    by (auto simp: dict_keys_def kv map_of_eq_None_iff)
  from Cons.prems(1) obtain b where b: "py_startswith k ''ndb_'' = Inr b"
    by (cases "py_startswith k ''ndb_''") (auto simp: kv)
  show ?case
  proof (cases b)
    case False
    with Cons.prems(1) b have "make_nattributes items acc = Inr nattrs" by (simp add: kv)
    from Cons.IH[OF this dist] not_startswith_ndb[of k name] b False show ?thesis
      by (simp add: kv)
  next
    case True
    with b have "py_startswith k ''ndb_'' = Inr True" by simp
    from startswith_ndb[OF this] obtain n0 where n0: "k = PStr (''ndb_'' @ n0)"
      "split_underscore_second k = Inr (PStr n0)" by blast
    with Cons.prems(1) b True
    have "make_nattributes items (dict_setitem (PStr n0) v acc) = Inr nattrs"
      by (simp add: kv)
    from Cons.IH[OF this dist]
    have ih: "map_of nattrs (PStr name) =
           (case map_of items (PStr (''ndb_'' @ name)) of
              Some v \<Rightarrow> Some v
            | None \<Rightarrow> map_of (dict_setitem (PStr n0) v acc) (PStr name))" .
    show ?thesis
    proof (cases "name = n0")
      case True
      with ih knew n0(1) show ?thesis by (simp add: kv map_of_dict_setitem split: option.splits)
    next
      case False
      with ih n0(1) show ?thesis by (simp add: kv map_of_dict_setitem split: option.splits)
    qed
  qed
qed

text \<open>
  What \<open>spawn\<close> does with the fields of one resolved mapping that are not reserved: a
  transient field is stored under its stripped name with its value as it is; of the fields
  it keeps as generic attributes, each function object is called once, in order, and the
  value returned is stored, and every other value is stored as it is. No other call of a
  function object is made.
\<close>

lemma build_objparam_lazy:
  assumes "build_objparam w prot tr = (Inr objparam, tr')" and "distinct (dict_keys prot)"
  shows "\<exists>evs0 evs. tr' = tr @ evs0 @ evs \<and> (\<forall>ev\<in>set evs0. \<forall>c r. ev \<noteq> Invoke c r) \<and>
           list_all2 (called_for (attributes objparam)) evs
             (filter (\<lambda>kv. callable (snd kv))
                (generic_fields (nattributes objparam) (unreserved prot))) \<and>
           (\<forall>kv\<in>set (generic_fields (nattributes objparam) (unreserved prot)).
               \<not> callable (snd kv) \<longrightarrow> map_of (attributes objparam) (fst kv) = Some (snd kv)) \<and>
           (\<forall>name v. (PStr (''ndb_'' @ name), v) \<in> set prot \<longrightarrow>
               map_of (nattributes objparam) (PStr name) = Some v)"
proof -
  have du: "distinct (dict_keys (unreserved prot))"
    using assms(2) by (simp add: unreserved_def dict_keys_def distinct_map_filter)
  let ?n = "randint w tr"
  let ?l = "field_or prot ''location'' PNone"
  let ?r1 = "handle_dbref w (tr @ [Randint ?n]) ?l"
  let ?h = "field_or prot ''home'' (DEFAULT_HOME w)"
  let ?r2 = "handle_dbref w ((tr @ [Randint ?n]) @ [HandleDbref ?l ?r1]) ?h"
  let ?d = "field_or prot ''destination'' PNone"
  let ?r3 = "handle_dbref w (((tr @ [Randint ?n]) @ [HandleDbref ?l ?r1]) @ [HandleDbref ?h ?r2]) ?d"
  let ?evs0 = "[Randint ?n, HandleDbref ?l ?r1, HandleDbref ?h ?r2, HandleDbref ?d ?r3]"
  from assms(1) have n: "make_nattributes (unreserved prot) [] = Inr (nattributes objparam)"
    and a: "make_attributes w (nattributes objparam) (unreserved prot) [] (tr @ ?evs0) =
             (Inr (attributes objparam), tr')"
    unfolding build_objparam_unfold
    by (auto simp: Let_def split: sum.splits prod.splits)
  from make_attributes_lazy[OF a du] obtain evs where evs: "tr' = (tr @ ?evs0) @ evs"
    "list_all2 (called_for (attributes objparam)) evs
             (filter (\<lambda>kv. callable (snd kv))
                (generic_fields (nattributes objparam) (unreserved prot)))"
    "\<forall>kv\<in>set (generic_fields (nattributes objparam) (unreserved prot)).
               \<not> callable (snd kv) \<longrightarrow> map_of (attributes objparam) (fst kv) = Some (snd kv)"
    by blast
  have tr: "\<forall>name v. (PStr (''ndb_'' @ name), v) \<in> set prot \<longrightarrow>
               map_of (nattributes objparam) (PStr name) = Some v"
  proof (intro allI impI)
    fix name v assume "(PStr (''ndb_'' @ name), v) \<in> set prot"
    then have "(PStr (''ndb_'' @ name), v) \<in> set (unreserved prot)"
      by (simp add: unreserved_def RESERVED_def)
    with du have "map_of (unreserved prot) (PStr (''ndb_'' @ name)) = Some v"
      by (simp add: dict_keys_def)
    with make_nattributes_stores[OF n du, of name]
    show "map_of (nattributes objparam) (PStr name) = Some v" by simp
  qed
  have "tr' = tr @ ?evs0 @ evs" using evs(1) by simp
  moreover have "\<forall>ev\<in>set ?evs0. \<forall>c r. ev \<noteq> Invoke c r" by simp
  ultimately show ?thesis using evs(2,3) tr by blast
qed

text \<open>
  C4. In \<^verbatim>\<open>{"health": f, "ndb_health": 1}\<close> the field \<^verbatim>\<open>health\<close> is a generic attribute
  whose value is a function object, yet \<open>spawn\<close> never calls it and stores no attribute
  \<^verbatim>\<open>health\<close>: its name is found among the stripped names of the transient attributes and
  the field is dropped, while \<^verbatim>\<open>ndb_health\<close> is stored twice. The defect is the one of C1.
\<close>

theorem shadowed_lazy_attribute_never_called:
  "spawn_loop world0 [PDict [(PStr ''health'', PCallable 0), (PStr ''ndb_health'', PInt 1)]] [] [] =
     (Inr [\<lparr>create = \<lparr>db_key = PStr ''Spawned Object 000007'', db_location = PNone,
                       db_home = PStr ''#2'', db_destination = PNone,
                       db_typeclass_path = PStr ''src.objects.objects.Object''\<rparr>,
            permissions = PStr [], locks = PStr [], aliases = PStr [],
            nattributes = [(PStr ''health'', PInt 1)],
            attributes = [(PStr ''ndb_health'', PInt 1)]\<rparr>],
      [Randint 7, HandleDbref PNone (Inr PNone), HandleDbref (PStr ''#2'') (Inr (PStr ''#2'')),
       HandleDbref PNone (Inr PNone)])"
  by code_simp

end
